theory Spec2Isabelle
  imports Main "HOL-Library.Word"
begin

section \<open>Common ground: Python exceptions and unsigned 64-bit labels\<close>

text \<open>
  Every \<^verbatim>\<open>raise\<close>, failed \<^verbatim>\<open>assert\<close> and library exception of the Python
  source is a value of \<open>error\<close>; a function that can raise returns \<open>error + 'a\<close>.
  Labels, node ids and sub-result ids are numpy \<^verbatim>\<open>uint64\<close> values: arithmetic on
  them wraps modulo \<open>2 ^ 64\<close>.
\<close>

datatype error =
    AssertionError
  | IndexError
  | ValueError
  | OverflowError
  | KeyError
  | ZeroDivisionError
  | TypeError
  | AttributeError
  | IOError

type_synonym u64 = "64 word"

section \<open>Background size filter (postprocess/background\_size\_filter.py)\<close>

text \<open>
  The volume store is a collaborator. A dataset is seen through the bounding boxes of the
  blocks: \<open>regions st d b\<close> is the content of dataset \<open>d\<close> inside the bounding box of
  block \<open>b\<close>, flattened. Datasets are named by a handle, so that the in-place call
  \<^verbatim>\<open>apply_block(block_id, blocking, ds, ds, discard_ids)\<close> is the call with the same
  handle twice. \<open>success_log\<close> collects the block ids passed to
  \<^verbatim>\<open>fu.log_block_success\<close>.
\<close>

record store =
  regions :: "nat \<Rightarrow> nat \<Rightarrow> u64 list"
  success_log :: "nat list"

definition write_region :: "nat \<Rightarrow> nat \<Rightarrow> u64 list \<Rightarrow> store \<Rightarrow> store" where
  "write_region d b v st = st\<lparr>regions := (regions st)(d := (regions st d)(b := v))\<rparr>"

definition log_block_success :: "nat \<Rightarrow> store \<Rightarrow> store" where
  "log_block_success b st = st\<lparr>success_log := success_log st @ [b]\<rparr>"

text \<open>
  \<^verbatim>\<open>np.sum(labels)\<close> on a \<^verbatim>\<open>uint64\<close> array accumulates in \<^verbatim>\<open>uint64\<close>: the sum of
  the word list, which wraps. \<^verbatim>\<open>np.sum(discard_mask)\<close> on a boolean array accumulates
  in \<^verbatim>\<open>int64\<close>; only the comparison with zero is used, which reads the same 64 bits.
\<close>

definition np_sum :: "u64 list \<Rightarrow> u64" where
  "np_sum xs = sum_list xs"

definition np_sum_bool :: "bool list \<Rightarrow> u64" where
  "np_sum_bool ms = sum_list (map of_bool ms)"

definition in1d :: "u64 list \<Rightarrow> u64 list \<Rightarrow> bool list" where
  "in1d labels discard_ids = map (\<lambda>l. l \<in> set discard_ids) labels"

definition zero_masked :: "u64 list \<Rightarrow> bool list \<Rightarrow> u64 list" where
  "zero_masked labels discard_mask = map (\<lambda>(l, m). if m then 0 else l) (zip labels discard_mask)"

definition apply_block :: "nat \<Rightarrow> nat \<Rightarrow> nat \<Rightarrow> u64 list \<Rightarrow> store \<Rightarrow> store" where
  "apply_block block_id ds_in ds_out discard_ids st =
     (let labels = regions st ds_in block_id
      in if np_sum labels = 0 then log_block_success block_id st
         else let discard_mask = in1d labels discard_ids
              in if np_sum_bool discard_mask = 0
                 then log_block_success block_id (write_region ds_out block_id labels st)
                 else log_block_success block_id
                        (write_region ds_out block_id (zero_masked labels discard_mask) st))"

text \<open>What the filter is meant to write: discarded labels become 0, the others stay.\<close>

definition discard_labels :: "u64 list \<Rightarrow> u64 list \<Rightarrow> u64 list" where
  "discard_labels discard_ids labels = map (\<lambda>l. if l \<in> set discard_ids then 0 else l) labels"

text \<open>
  A store whose input dataset (handle 0) holds, in block 0, two voxels with the label
  \<open>2 ^ 63\<close>, and whose output dataset (handle 1) holds the labels 7 and 7 there.
\<close>

definition wrap_store :: store where
  "wrap_store =
     \<lparr>regions = (\<lambda>d b. if b = 0 then (if d = 0 then [2 ^ 63, 2 ^ 63] else [7, 7]) else []),
      success_log = []\<rparr>"

section \<open>Global id unification (multicut/sub\_solutions.py)\<close>

text \<open>
  What \<^verbatim>\<open>read_subres\<close> reads for a block: the node ids of the block's sub-graph
  (\<^verbatim>\<open>ndist.loadNodes\<close>) and the stored sub-result of the block's chunk
  (\<^verbatim>\<open>ds_results.read_chunk\<close>), which is \<^verbatim>\<open>None\<close> when nothing was stored.
\<close>

record problem =
  load_nodes :: "nat \<Rightarrow> u64 list"
  read_chunk :: "nat \<Rightarrow> u64 list option"

text \<open>\<^verbatim>\<open>[t.result() for t in tasks]\<close>: the results in list order, or the first exception.\<close>

fun collect :: "(error + 'a) list \<Rightarrow> error + 'a list" where
  "collect [] = Inr []"
| "collect (r # rs) =
     (case r of
        Inl e \<Rightarrow> Inl e
      | Inr x \<Rightarrow> (case collect rs of Inl e \<Rightarrow> Inl e | Inr xs \<Rightarrow> Inr (x # xs)))"

text \<open>\<^verbatim>\<open>subres.max()\<close>: raises on an empty array.\<close>

definition np_max :: "u64 list \<Rightarrow> error + u64" where
  "np_max xs = (case xs of [] \<Rightarrow> Inl ValueError | x # ys \<Rightarrow> Inr (fold max ys x))"

definition read_subres :: "problem \<Rightarrow> nat \<Rightarrow> error + (u64 list \<times> u64 list \<times> int) option" where
  "read_subres pr block_id =
     (let nodes = load_nodes pr block_id
      in case read_chunk pr block_id of
           None \<Rightarrow> if 0 \<in> set nodes then Inr None else Inl AssertionError
         | Some subres \<Rightarrow>
             if length nodes \<noteq> length subres then Inl AssertionError
             else (case np_max subres of
                     Inl e \<Rightarrow> Inl e
                   | Inr m \<Rightarrow> Inr (Some (nodes, subres, uint m + 1))))"

text \<open>
  \<^verbatim>\<open>np.array([...], dtype='uint64')\<close> of Python integers: a value outside the range of
  \<^verbatim>\<open>uint64\<close> raises.
\<close>

definition to_uint64 :: "int \<Rightarrow> error + u64" where
  "to_uint64 n = (if 0 \<le> n \<and> n < 2 ^ 64 then Inr (word_of_int n) else Inl OverflowError)"

definition np_roll1 :: "'a list \<Rightarrow> 'a list" where
  "np_roll1 xs = (if xs = [] then [] else last xs # butlast xs)"

fun cumsum_from :: "u64 \<Rightarrow> u64 list \<Rightarrow> u64 list" where
  "cumsum_from acc [] = []"
| "cumsum_from acc (x # xs) = (acc + x) # cumsum_from (acc + x) xs"

definition np_cumsum :: "u64 list \<Rightarrow> u64 list" where
  "np_cumsum xs = cumsum_from 0 xs"

text \<open>
  The offsets: the counts as a \<^verbatim>\<open>uint64\<close> array, rolled by one, the first entry set
  to zero (an \<^verbatim>\<open>IndexError\<close> on an empty array), then the cumulative sum.
\<close>

definition block_offsets :: "int list \<Rightarrow> error + u64 list" where
  "block_offsets counts =
     (case collect (map to_uint64 counts) of
        Inl e \<Rightarrow> Inl e
      | Inr arr \<Rightarrow>
          (let rolled = np_roll1 arr
           in if rolled = [] then Inl IndexError
              else Inr (np_cumsum (rolled[0 := 0]))))"

text \<open>\<^verbatim>\<open>initial_node_labeling[nodes]\<close>: an index beyond the labeling raises.\<close>

definition take_labels :: "u64 list \<Rightarrow> u64 list \<Rightarrow> error + u64 list" where
  "take_labels labeling nodes =
     (if \<forall>n \<in> set nodes. unat n < length labeling
      then Inr (map (\<lambda>n. labeling ! unat n) nodes)
      else Inl IndexError)"

definition apply_node_labeling :: "u64 list option \<Rightarrow> u64 list list \<Rightarrow> error + u64 list list" where
  "apply_node_labeling initial_node_labeling block_nodes =
     (case initial_node_labeling of
        None \<Rightarrow> Inr block_nodes
      | Some labeling \<Rightarrow> collect (map (take_labels labeling) block_nodes))"

text \<open>
  The dictionary comprehension: a later pair with the same key replaces an earlier one,
  and key 0 gets the value 0.
\<close>

definition dict_put :: "u64 \<times> u64 \<Rightarrow> (u64 \<rightharpoonup> u64) \<Rightarrow> (u64 \<rightharpoonup> u64)" where
  "dict_put p d =
     (case p of (node_id, res_id) \<Rightarrow> d(node_id \<mapsto> (if node_id \<noteq> 0 then res_id else 0)))"

definition result_dict :: "u64 list \<Rightarrow> u64 list \<Rightarrow> (u64 \<rightharpoonup> u64)" where
  "result_dict bnodes bres = fold dict_put (zip bnodes bres) Map.empty"

definition add_offsets :: "u64 list list \<Rightarrow> u64 list \<Rightarrow> u64 list list" where
  "add_offsets block_res offs = map (\<lambda>(bres, boff). map (\<lambda>r. r + boff) bres) (zip block_res offs)"

definition read_subresults ::
  "problem \<Rightarrow> nat list \<Rightarrow> u64 list option \<Rightarrow> error + (nat list \<times> (u64 \<rightharpoonup> u64) list)" where
  "read_subresults pr block_list initial_node_labeling =
     (case collect (map (read_subres pr) block_list) of
        Inl e \<Rightarrow> Inl e
      | Inr results \<Rightarrow>
          (let block_list' = map fst (filter (\<lambda>(block_id, res). res \<noteq> None) (zip block_list results));
               present = List.map_filter (\<lambda>res. res) results;
               block_nodes = map (\<lambda>(nodes, subres, n). nodes) present;
               block_res = map (\<lambda>(nodes, subres, n). subres) present
           in case block_offsets (map (\<lambda>(nodes, subres, n). n) present) of
                Inl e \<Rightarrow> Inl e
              | Inr offs \<Rightarrow>
                  (case apply_node_labeling initial_node_labeling block_nodes of
                     Inl e \<Rightarrow> Inl e
                   | Inr block_nodes' \<Rightarrow>
                       Inr (block_list',
                            map (\<lambda>(bnodes, bres). result_dict bnodes bres)
                                (zip block_nodes' (add_offsets block_res offs))))))"

text \<open>
  The write phase. \<^verbatim>\<open>nt.takeDict\<close> looks every label of the block up in the block's
  dictionary; a label that is no key raises. Each block is a task of the thread pool: a
  task that raises writes nothing, the other tasks still run, and the first exception in
  list order is raised once all tasks are done. The tasks are taken in the order of
  submission.
\<close>

definition takeDict :: "(u64 \<rightharpoonup> u64) \<Rightarrow> u64 list \<Rightarrow> error + u64 list" where
  "takeDict block_res ws =
     (if \<forall>l \<in> set ws. block_res l \<noteq> None then Inr (map (\<lambda>l. the (block_res l)) ws)
      else Inl KeyError)"

definition write_block_res ::
  "nat \<Rightarrow> nat \<Rightarrow> nat \<Rightarrow> (u64 \<rightharpoonup> u64) \<Rightarrow> store \<Rightarrow> store \<times> error option" where
  "write_block_res ds_in ds_out block_id block_res st =
     (case takeDict block_res (regions st ds_in block_id) of
        Inl e \<Rightarrow> (st, Some e)
      | Inr seg \<Rightarrow> (log_block_success block_id (write_region ds_out block_id seg st), None))"

fun write_all ::
  "nat \<Rightarrow> nat \<Rightarrow> (nat \<times> (u64 \<rightharpoonup> u64)) list \<Rightarrow> store \<Rightarrow> store \<times> error option" where
  "write_all ds_in ds_out [] st = (st, None)"
| "write_all ds_in ds_out ((block_id, block_res) # rest) st =
     (case write_block_res ds_in ds_out block_id block_res st of
        (st', err) \<Rightarrow>
          (case write_all ds_in ds_out rest st' of
             (st'', err') \<Rightarrow> (st'', (case err of Some e \<Rightarrow> Some e | None \<Rightarrow> err'))))"

text \<open>
  \<^verbatim>\<open>sub_solutions\<close>: the node labeling is read when \<^verbatim>\<open>scale > 1\<close>; the job's success
  is logged (the result \<open>None\<close>) when nothing raised.
\<close>

definition sub_solutions ::
  "problem \<Rightarrow> int \<Rightarrow> u64 list \<Rightarrow> nat list \<Rightarrow> nat \<Rightarrow> nat \<Rightarrow> store \<Rightarrow> store \<times> error option" where
  "sub_solutions pr scale node_labeling block_list ds_in ds_out st =
     (let initial_node_labeling = (if scale > 1 then Some node_labeling else None)
      in case read_subresults pr block_list initial_node_labeling of
           Inl e \<Rightarrow> (st, Some e)
         | Inr (block_list', block_results) \<Rightarrow>
             write_all ds_in ds_out (zip block_list' block_results) st)"

text \<open>
  Notions for stating what \<^verbatim>\<open>_read_subresults\<close> computes: the stored sub-result of a
  block and its maximum, what \<^verbatim>\<open>read_subres\<close> returns for a block when it returns, the nodes of a block after the node labeling has been applied,
  and the sum of \<open>maximum + 1\<close> over the blocks before position \<open>i\<close> of a block
  list, in \<^verbatim>\<open>uint64\<close>.
\<close>

definition sub_result :: "problem \<Rightarrow> nat \<Rightarrow> u64 list" where
  "sub_result pr b = (case read_chunk pr b of None \<Rightarrow> [] | Some subres \<Rightarrow> subres)"

definition max_id :: "problem \<Rightarrow> nat \<Rightarrow> u64" where
  "max_id pr b = (case sub_result pr b of [] \<Rightarrow> 0 | x # ys \<Rightarrow> fold max ys x)"

definition stored_result :: "problem \<Rightarrow> nat \<Rightarrow> (u64 list \<times> u64 list \<times> int) option" where
  "stored_result pr b =
     (case read_chunk pr b of
        None \<Rightarrow> None
      | Some subres \<Rightarrow> Some (load_nodes pr b, subres, uint (max_id pr b) + 1))"

definition relabelled_nodes :: "u64 list option \<Rightarrow> u64 list \<Rightarrow> u64 list" where
  "relabelled_nodes initial_node_labeling nodes =
     (case initial_node_labeling of
        None \<Rightarrow> nodes
      | Some labeling \<Rightarrow> map (\<lambda>n. labeling ! unat n) nodes)"

definition offset_before :: "problem \<Rightarrow> nat list \<Rightarrow> nat \<Rightarrow> u64" where
  "offset_before pr bl i = sum_list (map (\<lambda>b. max_id pr b + 1) (take i bl))"





text \<open>
  The same three blocks, with nothing stored for block 1, and a store whose input
  dataset (handle 0) holds the watershed labels of the blocks and whose output dataset
  (handle 1) holds 9, 9 in every block.
\<close>

definition ex_absent :: problem where
  "ex_absent =
     \<lparr>load_nodes = (\<lambda>b. if b = 0 then [0, 1, 2, 3] else if b = 1 then [0] else [0, 4, 5]),
      read_chunk = (\<lambda>b. if b = 0 then Some [0, 1, 2, 3] else if b = 1 then None
                         else Some [0, 4, 5])\<rparr>"

definition ex_store :: store where
  "ex_store =
     \<lparr>regions = (\<lambda>d b. if d = 0 then (if b = 0 then [1, 2, 0, 3] else if b = 1 then [0, 0]
                                      else [4, 5, 0])
                        else [9, 9]),
      success_log = []\<rparr>"

section \<open>Reading a block with its halo (inference/multiscale\_inference.py)\<close>

text \<open>
  Coordinates, shapes and halos are lists of Python integers. The volume store is a
  collaborator, and an array is represented here by its shape: \<^verbatim>\<open>_load_input\<close>
  (\<open>load_input_impl\<close> below, as a name cannot start with an underscore) returns the
  bounding box it reads from the dataset, the padding it hands to \<^verbatim>\<open>np.pad\<close>, and
  the shape of the array it returns.
\<close>

definition floordiv :: "int \<Rightarrow> int \<Rightarrow> error + int" where
  "floordiv a b = (if b = 0 then Inl ZeroDivisionError else Inr (a div b))"

text \<open>
  The length of \<^verbatim>\<open>slice(start, stop)\<close> on an axis of length \<open>n\<close>: a negative index
  counts from the end, and both ends are cut to the axis.
\<close>

definition norm_index :: "int \<Rightarrow> int \<Rightarrow> int" where
  "norm_index n i = (if i < 0 then max (i + n) 0 else min i n)"

definition slice_len :: "int \<Rightarrow> int \<times> int \<Rightarrow> int" where
  "slice_len n se = max 0 (norm_index n (snd se) - norm_index n (fst se))"

text \<open>The shape of \<^verbatim>\<open>ds[bb]\<close>: axes without a slice are taken whole.\<close>

definition getitem_shape :: "int list \<Rightarrow> (int \<times> int) list \<Rightarrow> error + int list" where
  "getitem_shape shape bb =
     (if length bb > length shape then Inl IndexError
      else Inr (map (\<lambda>(n, se). slice_len n se) (zip shape bb) @ drop (length bb) shape))"

text \<open>
  The shape of \<^verbatim>\<open>np.pad(data, pad_width, mode='reflect')\<close>: one pair per axis, or a
  single pair for all axes; a negative width and the padding of an empty axis raise.
\<close>

definition np_pad_shape :: "int list \<Rightarrow> (int \<times> int) list \<Rightarrow> error + int list" where
  "np_pad_shape shape pad_width =
     (if length pad_width \<noteq> length shape \<and> length pad_width \<noteq> 1 then Inl ValueError
      else let pw = (if length pad_width = length shape then pad_width
                     else replicate (length shape) (hd pad_width))
           in if \<exists>(pl, pr) \<in> set pw. pl < 0 \<or> pr < 0 then Inl ValueError
              else if \<exists>(n, (pl, pr)) \<in> set (zip shape pw). n = 0 \<and> (pl \<noteq> 0 \<or> pr \<noteq> 0)
                   then Inl ValueError
                   else Inr (map (\<lambda>(n, (pl, pr)). pl + n + pr) (zip shape pw)))"

record load_result =
  read_bb :: "(int \<times> int) list"
  pad_width :: "(int \<times> int) list option"
  out_shape :: "int list"

text \<open>
  The second half of \<^verbatim>\<open>_load_input\<close>: the requested window \<open>starts\<close>,
  \<open>stops\<close> is cut to the volume, read, and padded back to the requested size.
  \<^verbatim>\<open>shape[i]\<close> raises when there are more stops than axes.
\<close>

definition read_padded :: "int list \<Rightarrow> int list \<Rightarrow> int list \<Rightarrow> error + load_result" where
  "read_padded shape starts stops =
     (let left = (\<exists>start \<in> set starts. start < 0);
          pad_left = (if left then Some (map (\<lambda>start. if start < 0 then \<bar>start\<bar> else 0) starts)
                      else None);
          starts' = (if left then map (\<lambda>start. max 0 start) starts else starts)
      in if length stops > length shape then Inl IndexError
         else
           (let right = (\<exists>(stop, n) \<in> set (zip stops shape). stop > n);
                pad_right = (if right
                             then Some (map (\<lambda>(stop, n). if stop > n then stop - n else 0)
                                            (zip stops shape))
                             else None);
                stops' = (if right then map (\<lambda>(stop, n). min n stop) (zip stops shape)
                          else stops);
                bb = zip starts' stops'
            in case getitem_shape shape bb of
                 Inl e \<Rightarrow> Inl e
               | Inr data_shape \<Rightarrow>
                   if pad_left \<noteq> None \<or> pad_right \<noteq> None
                   then (let pl = (case pad_left of None \<Rightarrow> [0, 0, 0] | Some p \<Rightarrow> p);
                             pr = (case pad_right of None \<Rightarrow> [0, 0, 0] | Some p \<Rightarrow> p);
                             pw = zip pl pr
                         in case np_pad_shape data_shape pw of
                              Inl e \<Rightarrow> Inl e
                            | Inr padded \<Rightarrow>
                                Inr \<lparr>read_bb = bb, pad_width = Some pw, out_shape = padded\<rparr>)
                   else Inr \<lparr>read_bb = bb, pad_width = None, out_shape = data_shape\<rparr>))"

text \<open>
  The first half: offset, block shape and halo are divided by the scale factor, then the
  halo of the scale is added on both sides.
\<close>

definition window_starts :: "int list \<Rightarrow> int list \<Rightarrow> int list \<Rightarrow> int list" where
  "window_starts this_offset this_halo scale_halo =
     map (\<lambda>(off, ha, sh). off - ha - sh) (zip this_offset (zip this_halo scale_halo))"

definition window_stops :: "int list \<Rightarrow> int list \<Rightarrow> int list \<Rightarrow> int list \<Rightarrow> int list" where
  "window_stops this_offset this_block_shape this_halo scale_halo =
     map (\<lambda>(off, bs, ha, sh). off + bs + ha + sh)
         (zip this_offset (zip this_block_shape (zip this_halo scale_halo)))"

definition floordivs :: "int list \<Rightarrow> int list \<Rightarrow> error + int list" where
  "floordivs xs scale_factor = collect (map (\<lambda>(x, sf). floordiv x sf) (zip xs scale_factor))"

definition load_input_impl ::
  "int list \<Rightarrow> int list \<Rightarrow> int list \<Rightarrow> int list \<Rightarrow> int list \<Rightarrow> int list \<Rightarrow> error + load_result" where
  "load_input_impl shape offset block_shape halo scale_factor scale_halo =
     (case floordivs offset scale_factor of
        Inl e \<Rightarrow> Inl e
      | Inr this_offset \<Rightarrow>
          (case floordivs block_shape scale_factor of
             Inl e \<Rightarrow> Inl e
           | Inr this_block_shape \<Rightarrow>
               (case floordivs halo scale_factor of
                  Inl e \<Rightarrow> Inl e
                | Inr this_halo \<Rightarrow>
                    read_padded shape
                      (window_starts this_offset this_halo scale_halo)
                      (window_stops this_offset this_block_shape this_halo scale_halo))))"

definition load_inputs_impl ::
  "int list list \<Rightarrow> int list \<Rightarrow> int list \<Rightarrow> int list \<Rightarrow> int list list \<Rightarrow> int list list
     \<Rightarrow> error + load_result list" where
  "load_inputs_impl datasets offset block_shape halo scale_factors scale_halos =
     collect (map (\<lambda>(ds, sf, sh). load_input_impl ds offset block_shape halo sf sh)
                  (zip datasets (zip scale_factors scale_halos)))"

text \<open>The padding on the two sides of axis \<open>i\<close> of a result; none when nothing was padded.\<close>

definition pad_before :: "load_result \<Rightarrow> nat \<Rightarrow> int" where
  "pad_before r i = (case pad_width r of None \<Rightarrow> 0 | Some pw \<Rightarrow> fst (pw ! i))"

definition pad_after :: "load_result \<Rightarrow> nat \<Rightarrow> int" where
  "pad_after r i = (case pad_width r of None \<Rightarrow> 0 | Some pw \<Rightarrow> snd (pw ! i))"

text \<open>
  For stating what \<^verbatim>\<open>_load_input\<close> returns: the bounding box that is read, whether
  anything is padded, and the padding on the left and on the right (with the source's
  default of three zeros for a side that needs none).
\<close>

definition pl_of :: "int list \<Rightarrow> int list" where
  "pl_of starts = (if \<exists>start \<in> set starts. start < 0
       then map (\<lambda>start. if start < 0 then \<bar>start\<bar> else 0) starts else [0, 0, 0])"

definition pr_of :: "int list \<Rightarrow> int list \<Rightarrow> int list" where
  "pr_of shape stops = (if \<exists>(stop, n) \<in> set (zip stops shape). stop > n
       then map (\<lambda>(stop, n). if stop > n then stop - n else 0) (zip stops shape) else [0, 0, 0])"

definition bb_of :: "int list \<Rightarrow> int list \<Rightarrow> int list \<Rightarrow> (int \<times> int) list" where
  "bb_of shape starts stops =
     zip (map (\<lambda>start. max 0 start) starts) (map (\<lambda>(stop, n). min n stop) (zip stops shape))"

definition padded_of :: "int list \<Rightarrow> int list \<Rightarrow> int list \<Rightarrow> bool" where
  "padded_of shape starts stops =
     ((\<exists>start \<in> set starts. start < 0) \<or> (\<exists>(stop, n) \<in> set (zip stops shape). stop > n))"

section \<open>Arrays, the predictor and the per-block pipeline\<close>

subsection \<open>Arrays\<close>

text \<open>
  A numpy array is a nested list: a scalar, or the list of its sub-arrays along the first
  axis. The shape is read along the first elements (the arrays of the program are
  regular), so an array with an empty axis has no further axes here.
\<close>

datatype 'a ndarray = Scalar 'a | Arr "'a ndarray list"

fun ndim :: "'a ndarray \<Rightarrow> nat" where
  "ndim (Scalar x) = 0"
| "ndim (Arr []) = 1"
| "ndim (Arr (a # as)) = Suc (ndim a)"

fun shape_of :: "'a ndarray \<Rightarrow> int list" where
  "shape_of (Scalar x) = []"
| "shape_of (Arr []) = [0]"
| "shape_of (Arr (a # as)) = int (length (a # as)) # shape_of a"

text \<open>An index is \<^verbatim>\<open>slice(None)\<close> or \<^verbatim>\<open>slice(start, stop)\<close>.\<close>

datatype slice = Full | Slice int int

definition py_slice :: "int \<Rightarrow> int \<Rightarrow> 'b list \<Rightarrow> 'b list" where
  "py_slice start stop xs =
     (let n = int (length xs); a = norm_index n start; b = norm_index n stop
      in take (nat (b - a)) (drop (nat a) xs))"

definition apply_slice :: "slice \<Rightarrow> 'b list \<Rightarrow> 'b list" where
  "apply_slice s xs = (case s of Full \<Rightarrow> xs | Slice start stop \<Rightarrow> py_slice start stop xs)"

text \<open>\<^verbatim>\<open>a[bb]\<close> for a tuple of slices: more slices than axes raise.\<close>

primrec getitem :: "slice list \<Rightarrow> 'a ndarray \<Rightarrow> error + 'a ndarray" where
  "getitem [] = (\<lambda>a. Inr a)"
| "getitem (s # ss) =
     (\<lambda>a. case a of
            Scalar x \<Rightarrow> Inl IndexError
          | Arr xs \<Rightarrow>
              (case collect (map (getitem ss) (apply_slice s xs)) of
                 Inl e \<Rightarrow> Inl e
               | Inr ys \<Rightarrow> Inr (Arr ys)))"

text \<open>\<^verbatim>\<open>a.squeeze()\<close>: every axis of length one is removed.\<close>

fun squeeze :: "'a ndarray \<Rightarrow> 'a ndarray" where
  "squeeze (Scalar x) = Scalar x"
| "squeeze (Arr []) = Arr []"
| "squeeze (Arr [a]) = squeeze a"
| "squeeze (Arr (a # b # as)) = Arr (map squeeze (a # b # as))"

subsection \<open>The predictor (inference/frameworks.py)\<close>

text \<open>
  An entry of the halo given to the predictor is an integer or, for a multiscale halo, a
  list of integers. \<^verbatim>\<open>set_up\<close> looks at the first entry to decide which it is.
\<close>

datatype halo_entry = HInt int | HList "int list"

record predicter =
  self_halo :: "halo_entry list"
  self_has_multiscale_halo :: bool

definition is_list :: "halo_entry \<Rightarrow> bool" where
  "is_list h = (case h of HList l \<Rightarrow> True | HInt i \<Rightarrow> False)"

definition set_up :: "halo_entry list \<Rightarrow> error + predicter" where
  "set_up halo_arg =
     (case halo_arg of
        [] \<Rightarrow> Inl IndexError
      | h # hs \<Rightarrow> Inr \<lparr>self_halo = halo_arg, self_has_multiscale_halo = is_list h\<rparr>)"

text \<open>\<^verbatim>\<open>crop\<close>: \<^verbatim>\<open>sh - ha\<close> raises when the halo entry is a list.\<close>

definition halo_slice :: "halo_entry \<times> int \<Rightarrow> error + slice" where
  "halo_slice p =
     (case p of (ha, sh) \<Rightarrow>
        (case ha of HInt h \<Rightarrow> Inr (Slice h (sh - h)) | HList l \<Rightarrow> Inl TypeError))"

definition crop :: "'a ndarray \<Rightarrow> halo_entry list \<Rightarrow> error + 'a ndarray" where
  "crop out halo_arg =
     (let shape = (if ndim out = 3 then shape_of out else tl (shape_of out))
      in case collect (map halo_slice (zip halo_arg shape)) of
           Inl e \<Rightarrow> Inl e
         | Inr bb \<Rightarrow> getitem (if ndim out = 4 then Full # bb else bb) out)"

text \<open>
  The input of the predictor is an array or a list of arrays; the model (with or without
  test-time augmentation) is a collaborator that returns a tensor or a list of tensors, or
  raises. The result of the predictor is an array or, with a multiscale halo, a list of
  arrays.
\<close>

datatype 'a arrays = One "'a ndarray" | Many "'a ndarray list"

definition check_data :: "'a arrays \<Rightarrow> error + unit" where
  "check_data data =
     (case data of
        One a \<Rightarrow> if ndim a = 3 then Inr () else Inl AssertionError
      | Many ds \<Rightarrow> if \<forall>d \<in> set ds. ndim d = 3 then Inr () else Inl AssertionError)"

definition halo_of_entry :: "halo_entry \<Rightarrow> halo_entry list" where
  "halo_of_entry h = (case h of HList l \<Rightarrow> map HInt l | HInt i \<Rightarrow> [])"

definition predicter_call ::
  "predicter \<Rightarrow> ('a arrays \<Rightarrow> error + 'a arrays) \<Rightarrow> 'a arrays \<Rightarrow> error + 'a arrays" where
  "predicter_call self model input_data =
     (case check_data input_data of
        Inl e \<Rightarrow> Inl e
      | Inr u \<Rightarrow>
          (case model input_data of
             Inl e \<Rightarrow> Inl e
           | Inr (Many outs) \<Rightarrow>
               if self_has_multiscale_halo self
               then if length (self_halo self) = length outs \<and> (\<forall>h \<in> set (self_halo self). is_list h)
                    then (case collect (map (\<lambda>(oo, h). crop oo (halo_of_entry h))
                                            (zip outs (self_halo self))) of
                            Inl e \<Rightarrow> Inl e
                          | Inr cropped \<Rightarrow> Inr (Many cropped))
                    else Inl AssertionError
               else (case outs of
                       [] \<Rightarrow> Inl IndexError
                     | out # rest \<Rightarrow>
                         (case crop out (self_halo self) of Inl e \<Rightarrow> Inl e | Inr c \<Rightarrow> Inr (One c)))
           | Inr (One out) \<Rightarrow>
               (case crop out (self_halo self) of Inl e \<Rightarrow> Inl e | Inr c \<Rightarrow> Inr (One c))))"

subsection \<open>The per-block pipeline (\_run\_inference)\<close>

text \<open>
  A block has a begin and an end; the blocking (a collaborator) has the configured block
  shape and gives the block of an id. A block at the far border of the volume is cut by
  the volume, so its end can lie before begin + block shape.
\<close>

record block =
  block_begin :: "int list"
  block_end :: "int list"

record blocking =
  blockShape :: "int list"
  getBlock :: "nat \<Rightarrow> block"

text \<open>An output dataset, as far as \<^verbatim>\<open>write_output\<close> looks at it.\<close>

record out_dataset =
  ds_ndim :: nat
  ds_shape0 :: int
  ds_dtype :: string

text \<open>
  The arguments of \<^verbatim>\<open>_run_inference\<close>. The input datasets are given by their shapes;
  the mask gives the mask values inside a block's bounding box; \<^verbatim>\<open>preprocess\<close>,
  \<^verbatim>\<open>predict\<close>, the channel accumulation and \<^verbatim>\<open>_to_uint8\<close> are functions handed
  in; \<open>cfg_put_region k b v\<close> is the answer of the volume store to writing \<open>v\<close> to
  block \<open>b\<close> of output dataset \<open>k\<close> (an exception, or none).
\<close>

record ('a, 'i) config =
  cfg_blocking :: blocking
  cfg_halo :: "int list"
  cfg_ds_in :: "int list list"
  cfg_ds_out :: "out_dataset list"
  cfg_mask :: "(block \<Rightarrow> bool list) option"
  cfg_scale_factors :: "int list list"
  cfg_scale_halos :: "int list list"
  cfg_preprocess :: "load_result list \<Rightarrow> error + 'i"
  cfg_predict :: "'i \<Rightarrow> error + 'a arrays"
  cfg_channel_mapping :: "(int \<times> int) list"
  cfg_channel_accumulation :: "('a ndarray \<Rightarrow> 'a ndarray) option"
  cfg_to_uint8 :: "'a ndarray \<Rightarrow> 'a ndarray"
  cfg_put_region :: "nat \<Rightarrow> nat \<Rightarrow> 'a ndarray \<Rightarrow> error option"

text \<open>
  What a stage does is recorded as a list of events: the log line at the start, the read
  of the mask, the loading of the inputs, the calls of \<^verbatim>\<open>preprocess\<close> and
  \<^verbatim>\<open>predict\<close>, every write of a region of an output dataset, and the block's success
  marker (\<^verbatim>\<open>fu.log_block_success\<close>). A stage returns its events and its result or
  exception.
\<close>

datatype 'a event =
    LogStart nat
  | ReadMask nat
  | LoadInputs nat
  | Preprocess nat
  | Predict nat
  | WriteRegion nat nat "'a ndarray"
  | LogBlockSuccess nat

definition block_to_bb :: "block \<Rightarrow> (int \<times> int) list" where
  "block_to_bb blk = zip (block_begin blk) (block_end blk)"

definition load_input ::
  "('a, 'i) config \<Rightarrow> nat \<Rightarrow> 'a event list \<times> (error + nat \<times> load_result list option)" where
  "load_input cfg block_id =
     (let blk = getBlock (cfg_blocking cfg) block_id;
          loaded = (case load_inputs_impl (cfg_ds_in cfg) (block_begin blk)
                           (blockShape (cfg_blocking cfg)) (cfg_halo cfg)
                           (cfg_scale_factors cfg) (cfg_scale_halos cfg) of
                      Inl e \<Rightarrow> Inl e
                    | Inr data \<Rightarrow> Inr (block_id, Some data))
      in case cfg_mask cfg of
           Some block_mask \<Rightarrow>
             if np_sum_bool (block_mask blk) = 0
             then ([LogStart block_id, ReadMask block_id], Inr (block_id, None))
             else ([LogStart block_id, ReadMask block_id, LoadInputs block_id], loaded)
         | None \<Rightarrow> ([LogStart block_id, LoadInputs block_id], loaded))"

definition preprocess_impl ::
  "('a, 'i) config \<Rightarrow> nat \<times> load_result list option \<Rightarrow> 'a event list \<times> (error + nat \<times> 'i option)" where
  "preprocess_impl cfg inputs =
     (case inputs of (block_id, data) \<Rightarrow>
        (case data of
           None \<Rightarrow> ([], Inr (block_id, None))
         | Some d \<Rightarrow>
             ([Preprocess block_id],
              (case cfg_preprocess cfg d of
                 Inl e \<Rightarrow> Inl e
               | Inr d' \<Rightarrow> Inr (block_id, Some d')))))"

definition predict_impl ::
  "('a, 'i) config \<Rightarrow> nat \<times> 'i option \<Rightarrow> 'a event list \<times> (error + nat \<times> 'a arrays option)" where
  "predict_impl cfg inputs =
     (case inputs of (block_id, data) \<Rightarrow>
        (case data of
           None \<Rightarrow> ([], Inr (block_id, None))
         | Some d \<Rightarrow>
             ([Predict block_id],
              (case cfg_predict cfg d of
                 Inl e \<Rightarrow> Inl e
               | Inr out \<Rightarrow> Inr (block_id, Some out)))))"

text \<open>
  The body of the loop over the output datasets in \<^verbatim>\<open>write_output\<close>, for the dataset
  with index \<open>k\<close>, in its four steps: the assertions on the dataset and its channel
  range, the selection of the channels, the accumulation and the cast, and the write.
\<close>

definition channel_checks ::
  "('a, 'i) config \<Rightarrow> 'a ndarray \<Rightarrow> out_dataset \<Rightarrow> int \<Rightarrow> int \<Rightarrow> error option" where
  "channel_checks cfg output dso chan_start chan_stop =
     (if ds_ndim dso = 3
      then (if cfg_channel_accumulation cfg = None \<and> chan_stop - chan_start \<noteq> 1
            then Some AssertionError else None)
      else (if ndim output \<noteq> 4 then Some AssertionError
            else if chan_stop - chan_start \<noteq> ds_shape0 dso then Some AssertionError
            else None))"

definition select_channels :: "'a ndarray \<Rightarrow> int \<Rightarrow> int \<Rightarrow> error + 'a ndarray" where
  "select_channels output chan_start chan_stop =
     (if ndim output = 4
      then (case getitem [Slice chan_start chan_stop] output of
              Inl e \<Rightarrow> Inl e
            | Inr c \<Rightarrow> Inr (squeeze c))
      else Inr output)"

definition accumulate_and_cast :: "('a, 'i) config \<Rightarrow> 'a ndarray \<Rightarrow> 'a ndarray" where
  "accumulate_and_cast cfg channel_output =
     (let accumulated =
            (case cfg_channel_accumulation cfg of
               None \<Rightarrow> channel_output
             | Some f \<Rightarrow> if ndim channel_output = 4 then f channel_output else channel_output)
      in if ds_dtype (hd (cfg_ds_out cfg)) = ''uint8'' then cfg_to_uint8 cfg accumulated
         else accumulated)"

definition put_region ::
  "('a, 'i) config \<Rightarrow> nat \<Rightarrow> nat \<Rightarrow> 'a ndarray \<Rightarrow> 'a event list \<times> (error + unit)" where
  "put_region cfg k block_id v =
     (case cfg_put_region cfg k block_id v of
        Some e \<Rightarrow> ([], Inl e)
      | None \<Rightarrow> ([WriteRegion k block_id v], Inr ()))"

definition write_dataset ::
  "('a, 'i) config \<Rightarrow> nat \<Rightarrow> 'a ndarray \<Rightarrow> nat \<Rightarrow> out_dataset \<times> (int \<times> int)
     \<Rightarrow> 'a event list \<times> (error + unit)" where
  "write_dataset cfg block_id output k p =
     (case p of (dso, (chan_start, chan_stop)) \<Rightarrow>
        (case channel_checks cfg output dso chan_start chan_stop of
           Some e \<Rightarrow> ([], Inl e)
         | None \<Rightarrow>
             (case select_channels output chan_start chan_stop of
                Inl e \<Rightarrow> ([], Inl e)
              | Inr channel_output \<Rightarrow>
                  put_region cfg k block_id (accumulate_and_cast cfg channel_output))))"

fun write_datasets ::
  "('a, 'i) config \<Rightarrow> nat \<Rightarrow> 'a ndarray \<Rightarrow> nat \<Rightarrow> (out_dataset \<times> (int \<times> int)) list
     \<Rightarrow> 'a event list \<times> (error + unit)" where
  "write_datasets cfg block_id output k [] = ([], Inr ())"
| "write_datasets cfg block_id output k (p # ps) =
     (case write_dataset cfg block_id output k p of
        (ev, Inl e) \<Rightarrow> (ev, Inl e)
      | (ev, Inr u) \<Rightarrow>
          (case write_datasets cfg block_id output (Suc k) ps of
             (ev', r) \<Rightarrow> (ev @ ev', r)))"

text \<open>The crop of the output to the block's actual shape, for a block cut by the volume.\<close>

definition crop_to_block :: "('a, 'i) config \<Rightarrow> nat \<Rightarrow> 'a ndarray \<Rightarrow> error + 'a ndarray" where
  "crop_to_block cfg block_id out =
     (let bb = block_to_bb (getBlock (cfg_blocking cfg) block_id);
          actual_shape = map (\<lambda>(start, stop). stop - start) bb
      in if actual_shape \<noteq> blockShape (cfg_blocking cfg)
         then getitem ((if ndim out = 4 then [Full] else []) @ map (\<lambda>ash. Slice 0 ash) actual_shape)
                      out
         else Inr out)"

definition write_array ::
  "('a, 'i) config \<Rightarrow> nat \<Rightarrow> 'a ndarray \<Rightarrow> 'a event list \<times> (error + nat)" where
  "write_array cfg block_id out =
     (if length (shape_of out) = 3 \<and> length (cfg_ds_out cfg) \<noteq> 1 then ([], Inl AssertionError)
      else (case crop_to_block cfg block_id out of
              Inl e \<Rightarrow> ([], Inl e)
            | Inr out' \<Rightarrow>
                (case write_datasets cfg block_id out' 0
                        (zip (cfg_ds_out cfg) (cfg_channel_mapping cfg)) of
                   (ev, r) \<Rightarrow> (ev, (case r of Inl e \<Rightarrow> Inl e | Inr u \<Rightarrow> Inr block_id)))))"

text \<open>
  \<^verbatim>\<open>write_output\<close>: nothing to do for a skipped block; a list has no
  \<^verbatim>\<open>shape\<close>; an array is checked, cropped and written.
\<close>

definition write_output ::
  "('a, 'i) config \<Rightarrow> nat \<times> 'a arrays option \<Rightarrow> 'a event list \<times> (error + nat)" where
  "write_output cfg inputs =
     (case inputs of (block_id, output) \<Rightarrow>
        (case output of
           None \<Rightarrow> ([], Inr block_id)
         | Some (Many outs) \<Rightarrow> ([], Inl AttributeError)
         | Some (One out) \<Rightarrow> write_array cfg block_id out))"

definition log2 :: "nat \<Rightarrow> 'a event list \<times> (error + nat)" where
  "log2 block_id = ([LogBlockSuccess block_id], Inr 1)"

text \<open>
  \<^verbatim>\<open>tz.pipe(block_id, load_input, preprocess_impl, predict_impl, write_output, log2)\<close>
  on delayed functions: each stage runs on the result of the one before, and an exception
  ends the chain. \<open>until_write\<close> is the chain up to \<^verbatim>\<open>write_output\<close>.
\<close>

definition then_stage ::
  "'e list \<times> (error + 'x) \<Rightarrow> ('x \<Rightarrow> 'e list \<times> (error + 'y)) \<Rightarrow> 'e list \<times> (error + 'y)" where
  "then_stage r f =
     (case r of
        (ev, Inl e) \<Rightarrow> (ev, Inl e)
      | (ev, Inr x) \<Rightarrow> (case f x of (ev', y) \<Rightarrow> (ev @ ev', y)))"

definition until_write :: "('a, 'i) config \<Rightarrow> nat \<Rightarrow> 'a event list \<times> (error + nat)" where
  "until_write cfg block_id =
     then_stage (then_stage (then_stage (load_input cfg block_id) (preprocess_impl cfg))
                            (predict_impl cfg))
                (write_output cfg)"

definition pipe_block :: "('a, 'i) config \<Rightarrow> nat \<Rightarrow> 'a event list \<times> (error + nat)" where
  "pipe_block cfg block_id = then_stage (until_write cfg block_id) log2"

text \<open>
  The checks at the start of \<^verbatim>\<open>_run_inference\<close>: the output datasets have one
  \<^verbatim>\<open>dtype\<close> (\<^verbatim>\<open>dtypes[0]\<close> raises when there is no output dataset).
\<close>

definition check_dtypes :: "('a, 'i) config \<Rightarrow> error + string" where
  "check_dtypes cfg =
     (case cfg_ds_out cfg of
        [] \<Rightarrow> Inl IndexError
      | dso # rest \<Rightarrow>
          if \<forall>d \<in> set (cfg_ds_out cfg). ds_dtype d = ds_dtype dso then Inr (ds_dtype dso)
          else Inl AssertionError)"



subsection \<open>Modelled from the spec: stage completion\<close>

text \<open>
  Modelled from the spec: the reconciliation of the stage scheduler (its module,
  \<^verbatim>\<open>cluster_tasks\<close>, is not among the sources). After the jobs have finished, any block
  of the expected block list that has no success marker is a failure, to be retried.
\<close>

definition failed_blocks :: "'a event list \<Rightarrow> nat list \<Rightarrow> nat list" where
  "failed_blocks trace block_list = filter (\<lambda>b. LogBlockSuccess b \<notin> set trace) block_list"

subsection \<open>Example runs\<close>

text \<open>
  A volume of shape 2, 2, 2 with one block; preprocessing hands the loaded data on, the
  predictor returns an array of the block's shape, and there is one output dataset.
\<close>

definition ex_block :: block where
  "ex_block = \<lparr>block_begin = [0, 0, 0], block_end = [2, 2, 2]\<rparr>"

definition ex_blocking :: blocking where
  "ex_blocking = \<lparr>blockShape = [2, 2, 2], getBlock = (\<lambda>b. ex_block)\<rparr>"

definition ex_array :: "nat ndarray" where
  "ex_array =
     Arr [Arr [Arr [Scalar 1, Scalar 2], Arr [Scalar 3, Scalar 4]],
          Arr [Arr [Scalar 5, Scalar 6], Arr [Scalar 7, Scalar 8]]]"

definition ex_dataset :: out_dataset where
  "ex_dataset = \<lparr>ds_ndim = 3, ds_shape0 = 2, ds_dtype = ''float32''\<rparr>"

definition ex_cfg :: "(nat, load_result list) config" where
  "ex_cfg =
     \<lparr>cfg_blocking = ex_blocking,
      cfg_halo = [0, 0, 0],
      cfg_ds_in = [[2, 2, 2]],
      cfg_ds_out = [ex_dataset],
      cfg_mask = None,
      cfg_scale_factors = [[1, 1, 1]],
      cfg_scale_halos = [[0, 0, 0]],
      cfg_preprocess = (\<lambda>d. Inr d),
      cfg_predict = (\<lambda>d. Inr (One ex_array)),
      cfg_channel_mapping = [(0, 1)],
      cfg_channel_accumulation = None,
      cfg_to_uint8 = (\<lambda>a. a),
      cfg_put_region = (\<lambda>k b v. None)\<rparr>"

text \<open>The same run with a mask that is false on the whole block.\<close>

definition ex_masked_cfg :: "(nat, load_result list) config" where
  "ex_masked_cfg = ex_cfg\<lparr>cfg_mask := Some (\<lambda>blk. [False, False])\<rparr>"



text \<open>
  A predictor with the halo 1, 0, 0 whose model returns a list with one array of shape
  4, 2, 2, and a run with this predictor and two declared output datasets.
\<close>

definition ex_padded_array :: "nat ndarray" where
  "ex_padded_array =
     Arr [Arr [Arr [Scalar 0, Scalar 0], Arr [Scalar 0, Scalar 0]],
          Arr [Arr [Scalar 1, Scalar 2], Arr [Scalar 3, Scalar 4]],
          Arr [Arr [Scalar 5, Scalar 6], Arr [Scalar 7, Scalar 8]],
          Arr [Arr [Scalar 9, Scalar 9], Arr [Scalar 9, Scalar 9]]]"

definition ex_predicter :: predicter where
  "ex_predicter = \<lparr>self_halo = [HInt 1, HInt 0, HInt 0], self_has_multiscale_halo = False\<rparr>"

definition ex_model :: "nat arrays \<Rightarrow> error + nat arrays" where
  "ex_model data = Inr (Many [ex_padded_array])"

definition ex_two_outputs_cfg :: "(nat, nat arrays) config" where
  "ex_two_outputs_cfg =
     \<lparr>cfg_blocking = ex_blocking,
      cfg_halo = [0, 0, 0],
      cfg_ds_in = [[2, 2, 2]],
      cfg_ds_out = [ex_dataset, ex_dataset],
      cfg_mask = None,
      cfg_scale_factors = [[1, 1, 1]],
      cfg_scale_halos = [[0, 0, 0]],
      cfg_preprocess = (\<lambda>d. Inr (Many [ex_padded_array])),
      cfg_predict = predicter_call ex_predicter ex_model,
      cfg_channel_mapping = [(0, 1), (1, 2)],
      cfg_channel_accumulation = None,
      cfg_to_uint8 = (\<lambda>a. a),
      cfg_put_region = (\<lambda>k b v. None)\<rparr>"

text \<open>A prediction with two channels, each of the block's shape.\<close>

definition ex_channels :: "nat ndarray" where
  "ex_channels =
     Arr [Arr [Arr [Arr [Scalar 1, Scalar 2], Arr [Scalar 3, Scalar 4]],
               Arr [Arr [Scalar 5, Scalar 6], Arr [Scalar 7, Scalar 8]]],
          Arr [Arr [Arr [Scalar 11, Scalar 12], Arr [Scalar 13, Scalar 14]],
               Arr [Arr [Scalar 15, Scalar 16], Arr [Scalar 17, Scalar 18]]]]"

definition ex_channel_1 :: "nat ndarray" where
  "ex_channel_1 =
     Arr [Arr [Arr [Scalar 11, Scalar 12], Arr [Scalar 13, Scalar 14]],
          Arr [Arr [Scalar 15, Scalar 16], Arr [Scalar 17, Scalar 18]]]"

text \<open>
  A volume of shape 15, 15, 15 with blocks of shape 10, 10, 10: the block that begins at
  0, 0, 10 is cut by the volume and ends at 10, 10, 15.
\<close>

definition ex_border_block :: block where
  "ex_border_block = \<lparr>block_begin = [0, 0, 10], block_end = [10, 10, 15]\<rparr>"

definition ex_border_cfg :: "(nat, load_result list) config" where
  "ex_border_cfg =
     ex_cfg\<lparr>cfg_blocking := \<lparr>blockShape = [10, 10, 10], getBlock = (\<lambda>b. ex_border_block)\<rparr>,
            cfg_ds_in := [[15, 15, 15]]\<rparr>"

definition ex_border_loaded :: load_result where
  "ex_border_loaded =
     \<lparr>read_bb = [(0, 10), (0, 10), (10, 15)],
      pad_width = Some [(0, 0), (0, 0), (0, 5)],
      out_shape = [10, 10, 10]\<rparr>"

text \<open>What \<^verbatim>\<open>_load_input\<close> returns for two windows that leave the volume.\<close>

definition ex_window_loaded :: load_result where
  "ex_window_loaded =
     \<lparr>read_bb = [(8, 20), (0, 12), (3, 17)],
      pad_width = Some [(0, 2), (2, 0), (0, 0)],
      out_shape = [14, 14, 14]\<rparr>"

definition ex_coarse_loaded :: load_result where
  "ex_coarse_loaded =
     \<lparr>read_bb = [(5, 19), (0, 11), (5, 19)],
      pad_width = Some [(0, 0), (3, 0), (0, 0)],
      out_shape = [14, 14, 14]\<rparr>"

section \<open>Properties of the background size filter\<close>

lemma zero_masked_in1d: "zero_masked labels (in1d labels ids) = discard_labels ids labels"
  by (simp add: zero_masked_def in1d_def discard_labels_def zip_map2 zip_same_conv_map)

lemma np_sum_unat: "unat (np_sum xs) = sum_list (map unat xs) mod 2 ^ 64"
  unfolding np_sum_def
  by (induction xs) (simp_all add: unat_word_ariths mod_simps)

lemma np_sum_zero_iff:
  assumes "sum_list (map unat xs) < 2 ^ 64"
  shows "np_sum xs = 0 \<longleftrightarrow> (\<forall>x \<in> set xs. x = 0)"
proof -
  have "np_sum xs = 0 \<longleftrightarrow> unat (np_sum xs) = 0" by (simp add: unat_eq_0)
  also have "\<dots> \<longleftrightarrow> sum_list (map unat xs) = 0" using assms by (simp add: np_sum_unat)
  also have "\<dots> \<longleftrightarrow> (\<forall>x \<in> set xs. x = 0)" by (induction xs) (auto simp add: unat_eq_0)
  finally show ?thesis .
qed

lemma np_sum_bool_unat: "unat (np_sum_bool ms) = length (filter id ms) mod 2 ^ 64"
  unfolding np_sum_bool_def
  by (induction ms) (simp_all add: unat_word_ariths mod_simps)

lemma np_sum_bool_zero_iff:
  assumes "length ms < 2 ^ 64"
  shows "np_sum_bool ms = 0 \<longleftrightarrow> (\<forall>m \<in> set ms. \<not> m)"
proof -
  have le: "length (filter id ms) \<le> length ms" by simp
  have "np_sum_bool ms = 0 \<longleftrightarrow> unat (np_sum_bool ms) = 0" by (simp add: unat_eq_0)
  also have "\<dots> \<longleftrightarrow> length (filter id ms) = 0"
  proof -
    have "length (filter id ms) < 2 ^ 64" using assms le by linarith
    then show ?thesis by (simp add: np_sum_bool_unat)
  qed
  also have "\<dots> \<longleftrightarrow> (\<forall>m \<in> set ms. \<not> m)" by (induction ms) auto
  finally show ?thesis .
qed

lemma discard_labels_id: "\<forall>l \<in> set labels. l \<notin> set ids \<Longrightarrow> discard_labels ids labels = labels"
  by (induction labels) (simp_all add: discard_labels_def)

text \<open>
  As long as the sum of the block's labels stays below \<open>2 ^ 64\<close>, \<^verbatim>\<open>apply_block\<close>
  does what it is meant to: an all-zero block is logged and not written, any other block is
  written with the discarded labels set to 0 and logged.
\<close>

lemma apply_block_no_wrap:
  assumes "sum_list (map unat (regions st ds_in b)) < 2 ^ 64"
    and "length (regions st ds_in b) < 2 ^ 64"
  shows "apply_block b ds_in ds_out ids st =
     (if \<forall>l \<in> set (regions st ds_in b). l = 0 then log_block_success b st
      else log_block_success b (write_region ds_out b (discard_labels ids (regions st ds_in b)) st))"
proof -
  let ?ls = "regions st ds_in b"
  have len: "length (in1d ?ls ids) < 2 ^ 64" using assms(2) by (simp add: in1d_def)
  have m0: "np_sum_bool (in1d ?ls ids) = 0 \<Longrightarrow> discard_labels ids ?ls = ?ls"
    using np_sum_bool_zero_iff [OF len] by (intro discard_labels_id) (simp add: in1d_def)
  show ?thesis
    using np_sum_zero_iff [OF assms(1)] m0
    by (simp add: apply_block_def Let_def zero_masked_in1d)
qed

text \<open>
  Claim C10 (the background size filter logs every block as successful, leaves the output
  region of an all-zero block unwritten, and writes every other block with the discarded
  labels replaced by 0). The test for an all-zero block is \<^verbatim>\<open>np.sum(labels) == 0\<close>,
  and the sum of \<^verbatim>\<open>uint64\<close> labels wraps: a block with the two labels \<open>2 ^ 63\<close>
  and \<open>2 ^ 63\<close> is not all zero, has no discarded label, and yet its output region is
  not written (it keeps the old content 7, 7 instead of the input labels); the block is
  logged as successful all the same.
\<close>

theorem apply_block_wrapped_sum_not_written:
  "regions wrap_store 0 0 = [2 ^ 63, 2 ^ 63]
   \<and> np_sum (regions wrap_store 0 0) = 0
   \<and> regions (apply_block 0 0 1 [] wrap_store) 1 0 = [7, 7]
   \<and> regions (apply_block 0 0 1 [] wrap_store) 1 0 \<noteq> discard_labels [] (regions wrap_store 0 0)
   \<and> success_log (apply_block 0 0 1 [] wrap_store) = [0]"
  by (simp add: apply_block_def wrap_store_def np_sum_def log_block_success_def discard_labels_def)

section \<open>Properties of global id unification\<close>

subsection \<open>Collected results and offsets\<close>

lemma collect_map_Inr: "collect (map Inr xs) = Inr xs"
  by (induction xs) simp_all

lemma collect_Inr_D: "collect rs = Inr xs \<Longrightarrow> rs = map Inr xs"
proof (induction rs arbitrary: xs)
  case Nil
  then show ?case by simp
next
  case (Cons r rs)
  from Cons.prems obtain x ys where r: "r = Inr x" and c: "collect rs = Inr ys" and xs: "xs = x # ys"
    by (auto split: sum.splits)
  from Cons.IH [OF c] r xs show ?case by simp
qed

lemma collect_append:
  "collect (rs @ ss) =
     (case collect rs of
        Inl e \<Rightarrow> Inl e
      | Inr xs \<Rightarrow> (case collect ss of Inl e \<Rightarrow> Inl e | Inr ys \<Rightarrow> Inr (xs @ ys)))"
  by (induction rs) (simp_all split: sum.splits)

lemma length_cumsum_from: "length (cumsum_from acc xs) = length xs"
  by (induction xs arbitrary: acc) simp_all

lemma cumsum_from_nth:
  "i < length xs \<Longrightarrow> cumsum_from acc xs ! i = acc + sum_list (take (Suc i) xs)"
proof (induction xs arbitrary: acc i)
  case Nil
  then show ?case by simp
next
  case (Cons x xs)
  show ?case
  proof (cases i)
    case 0
    then show ?thesis by simp
  next
    case (Suc k)
    with Cons.prems have "k < length xs" by simp
    from Cons.IH [OF this, of "acc + x"] Suc show ?thesis by (simp add: add.assoc)
  qed
qed

lemma block_offsets_unfold:
  assumes "block_offsets counts = Inr offs"
  shows "\<exists>arr. collect (map to_uint64 counts) = Inr arr \<and> arr \<noteq> [] \<and> offs = np_cumsum (0 # butlast arr)"
proof (cases "collect (map to_uint64 counts)")
  case (Inl e)
  with assms show ?thesis by (simp add: block_offsets_def)
next
  case (Inr arr)
  show ?thesis
  proof (cases "arr = []")
    case True
    with assms Inr show ?thesis by (simp add: block_offsets_def np_roll1_def)
  next
    case False
    with assms Inr show ?thesis by (simp add: block_offsets_def np_roll1_def)
  qed
qed

lemma to_uint64_map:
  assumes "map to_uint64 counts = map Inr arr"
  shows "arr = map word_of_int counts"
  using assms
proof (induction counts arbitrary: arr)
  case Nil
  then show ?case by simp
next
  case (Cons c cs)
  then obtain a as where "arr = a # as" by (cases arr) auto
  with Cons show ?case by (auto simp add: to_uint64_def split: if_splits)
qed

lemma block_offsets_Inr:
  assumes "block_offsets counts = Inr offs"
  shows "length offs = length counts \<and> counts \<noteq> [] \<and>
    (\<forall>i < length counts. offs ! i = sum_list (map word_of_int (take i counts)))"
proof -
  from block_offsets_unfold [OF assms] obtain arr where
    arr: "collect (map to_uint64 counts) = Inr arr" and ane: "arr \<noteq> []"
    and offs: "offs = np_cumsum (0 # butlast arr)" by blast
  have arr_eq: "arr = map word_of_int counts"
    using collect_Inr_D [OF arr] by (rule to_uint64_map)
  then have len: "length arr = length counts" by simp
  have pos: "0 < length counts" using ane len by (cases arr) auto
  have l1: "length offs = length counts"
    using offs pos len by (simp add: np_cumsum_def length_cumsum_from)
  have l2: "counts \<noteq> []" using ane arr_eq by simp
  have l3: "offs ! i = sum_list (map word_of_int (take i counts))" if i: "i < length counts" for i
  proof -
    have il: "i < length (0 # butlast arr)" using i len ane by simp
    have "offs ! i = 0 + sum_list (take (Suc i) (0 # butlast arr))"
      unfolding offs np_cumsum_def by (rule cumsum_from_nth [OF il])
    also have "\<dots> = sum_list (take i (butlast arr))" by simp
    also have "take i (butlast arr) = take i arr"
      using i len by (simp add: take_butlast)
    finally show ?thesis by (simp add: arr_eq take_map)
  qed
  from l1 l2 l3 show ?thesis by blast
qed

lemma block_offsets_total:
  assumes "counts \<noteq> []" and "\<forall>c \<in> set counts. 0 \<le> c \<and> c < 2 ^ 64"
  shows "\<exists>offs. block_offsets counts = Inr offs"
proof -
  have "map to_uint64 counts = map Inr (map word_of_int counts)"
    using assms(2) by (induction counts) (simp_all add: to_uint64_def)
  then have "collect (map to_uint64 counts) = Inr (map word_of_int counts)"
    by (simp only: collect_map_Inr)
  with assms(1) show ?thesis by (simp add: block_offsets_def np_roll1_def)
qed

subsection \<open>What a successful call of read\_subresults returns\<close>

lemma read_subres_Inr:
  assumes "read_subres pr b = Inr r"
  shows "r = stored_result pr b"
    and "read_chunk pr b \<noteq> None \<Longrightarrow> length (load_nodes pr b) = length (sub_result pr b) \<and> sub_result pr b \<noteq> []"
    and "read_chunk pr b = None \<Longrightarrow> 0 \<in> set (load_nodes pr b)"
  using assms
  by (auto simp add: read_subres_def stored_result_def Let_def np_max_def max_id_def sub_result_def
      split: option.splits if_splits sum.splits list.splits)

lemma read_all_Inr:
  assumes "collect (map (read_subres pr) bl) = Inr results"
  shows "results = map (stored_result pr) bl"
proof -
  from collect_Inr_D [OF assms] have m: "map (read_subres pr) bl = map Inr results" .
  then have len: "length results = length bl" by (metis length_map)
  show ?thesis
  proof (rule nth_equalityI)
    show "length results = length (map (stored_result pr) bl)" using len by simp
  next
    fix i assume i: "i < length results"
    from m have "map (read_subres pr) bl ! i = map Inr results ! i" by simp
    with i len have "read_subres pr (bl ! i) = Inr (results ! i)" by simp
    from read_subres_Inr(1) [OF this] i len show "results ! i = map (stored_result pr) bl ! i" by simp
  qed
qed

lemma filter_zip_map:
  "map fst (filter (\<lambda>(b, r). r \<noteq> None) (zip bl (map g bl))) = filter (\<lambda>b. g b \<noteq> None) bl"
  by (induction bl) simp_all

lemma map_filter_map:
  "List.map_filter (\<lambda>r. r) (map g bl) = map (\<lambda>b. the (g b)) (filter (\<lambda>b. g b \<noteq> None) bl)"
  by (induction bl) (auto simp add: List.map_filter_simps split: option.splits)

lemma stored_result_None: "stored_result pr b \<noteq> None \<longleftrightarrow> read_chunk pr b \<noteq> None"
  by (simp add: stored_result_def split: option.splits)

lemma the_stored_result:
  "read_chunk pr b \<noteq> None \<Longrightarrow> the (stored_result pr b) = (load_nodes pr b, sub_result pr b, uint (max_id pr b) + 1)"
  by (auto simp add: stored_result_def sub_result_def split: option.splits)

lemma take_labels_Inr: "take_labels l ns = Inr ms \<Longrightarrow> ms = relabelled_nodes (Some l) ns"
  by (auto simp add: take_labels_def relabelled_nodes_def split: if_splits)

lemma relabelled_nodes_None: "relabelled_nodes None = (\<lambda>ns. ns)"
  by (rule ext) (simp add: relabelled_nodes_def)

lemma apply_node_labeling_Inr:
  assumes "apply_node_labeling lab nss = Inr mss"
  shows "mss = map (relabelled_nodes lab) nss"
proof (cases lab)
  case None
  with assms show ?thesis by (simp add: apply_node_labeling_def relabelled_nodes_None)
next
  case (Some l)
  with assms have "collect (map (take_labels l) nss) = Inr mss" by (simp add: apply_node_labeling_def)
  from collect_Inr_D [OF this] have m: "map (take_labels l) nss = map Inr mss" .
  then have len: "length mss = length nss" by (metis length_map)
  show ?thesis
  proof (rule nth_equalityI)
    show "length mss = length (map (relabelled_nodes lab) nss)" using len by simp
  next
    fix i assume i: "i < length mss"
    from m have "map (take_labels l) nss ! i = map Inr mss ! i" by simp
    with i len have "take_labels l (nss ! i) = Inr (mss ! i)" by simp
    from take_labels_Inr [OF this] i len Some show "mss ! i = map (relabelled_nodes lab) nss ! i" by simp
  qed
qed

lemma offsets_eq:
  assumes "block_offsets (map (\<lambda>b. uint (max_id pr b) + 1) bl) = Inr offs"
  shows "offs = map (offset_before pr bl) [0..<length bl]"
proof (rule nth_equalityI)
  from block_offsets_Inr [OF assms] show "length offs = length (map (offset_before pr bl) [0..<length bl])"
    by simp
next
  fix i assume "i < length offs"
  with block_offsets_Inr [OF assms] have i: "i < length bl"
    and "offs ! i = sum_list (map word_of_int (take i (map (\<lambda>b. uint (max_id pr b) + 1) bl)))"
    by simp_all
  then have "offs ! i = offset_before pr bl i"
    by (simp add: offset_before_def take_map comp_def)
  with i show "offs ! i = map (offset_before pr bl) [0..<length bl] ! i" by simp
qed

lemma read_subresults_Inr:
  assumes "read_subresults pr bl lab = Inr (bl', dicts)"
  shows "bl' = filter (\<lambda>b. read_chunk pr b \<noteq> None) bl"
    and "block_offsets (map (\<lambda>b. uint (max_id pr b) + 1) bl') = Inr (map (offset_before pr bl') [0..<length bl'])"
    and "apply_node_labeling lab (map (load_nodes pr) bl') = Inr (map (\<lambda>b. relabelled_nodes lab (load_nodes pr b)) bl')"
    and "dicts = map (\<lambda>i. result_dict (relabelled_nodes lab (load_nodes pr (bl' ! i)))
                        (map (\<lambda>r. r + offset_before pr bl' i) (sub_result pr (bl' ! i)))) [0..<length bl']"
    and "\<forall>b \<in> set bl'. length (load_nodes pr b) = length (sub_result pr b) \<and> sub_result pr b \<noteq> []"
proof -
  let ?P = "filter (\<lambda>b. read_chunk pr b \<noteq> None) bl"
  from assms obtain results where res: "collect (map (read_subres pr) bl) = Inr results"
    by (auto simp add: read_subresults_def split: sum.splits)
  have results: "results = map (stored_result pr) bl" by (rule read_all_Inr [OF res])
  have fe: "filter (\<lambda>b. stored_result pr b \<noteq> None) bl = ?P"
    by (rule filter_cong) (simp_all only: stored_result_None)
  have bl1: "map fst (filter (\<lambda>(block_id, res). res \<noteq> None) (zip bl results)) = ?P"
    unfolding results filter_zip_map by (rule fe)
  have present: "List.map_filter (\<lambda>res. res) results
      = map (\<lambda>b. (load_nodes pr b, sub_result pr b, uint (max_id pr b) + 1)) ?P"
    unfolding results map_filter_map fe by (rule map_cong) (simp_all add: the_stored_result)
  have eq: "read_subresults pr bl lab =
      (case block_offsets (map (\<lambda>b. uint (max_id pr b) + 1) ?P) of
         Inl e \<Rightarrow> Inl e
       | Inr offs \<Rightarrow>
           (case apply_node_labeling lab (map (load_nodes pr) ?P) of
              Inl e \<Rightarrow> Inl e
            | Inr nodes' \<Rightarrow>
                Inr (?P, map (\<lambda>(bnodes, bres). result_dict bnodes bres)
                          (zip nodes' (add_offsets (map (sub_result pr) ?P) offs)))))"
  proof -
    have p1: "map (\<lambda>(nodes, subres, n). nodes) (List.map_filter (\<lambda>res. res) results) = map (load_nodes pr) ?P"
      unfolding present by simp
    have p2: "map (\<lambda>(nodes, subres, n). subres) (List.map_filter (\<lambda>res. res) results) = map (sub_result pr) ?P"
      unfolding present by simp
    have p3: "map (\<lambda>(nodes, subres, n). n) (List.map_filter (\<lambda>res. res) results) = map (\<lambda>b. uint (max_id pr b) + 1) ?P"
      unfolding present by simp
    show ?thesis
      by (simp add: read_subresults_def res Let_def bl1 p1 p2 p3 del: not_None_eq cong: sum.case_cong)
  qed
  from assms obtain offs nodes' where
    offs: "block_offsets (map (\<lambda>b. uint (max_id pr b) + 1) ?P) = Inr offs"
    and nodes': "apply_node_labeling lab (map (load_nodes pr) ?P) = Inr nodes'"
    and bl': "bl' = ?P"
    and dicts: "dicts = map (\<lambda>(bnodes, bres). result_dict bnodes bres)
                  (zip nodes' (add_offsets (map (sub_result pr) ?P) offs))"
    unfolding eq by (auto split: sum.splits simp del: not_None_eq)
  show 1: "bl' = ?P" by (rule bl')
  show 2: "block_offsets (map (\<lambda>b. uint (max_id pr b) + 1) bl') = Inr (map (offset_before pr bl') [0..<length bl'])"
    using offs offsets_eq [OF offs] bl' by simp
  have n_eq: "nodes' = map (relabelled_nodes lab) (map (load_nodes pr) ?P)"
    by (rule apply_node_labeling_Inr [OF nodes'])
  show 3: "apply_node_labeling lab (map (load_nodes pr) bl') = Inr (map (\<lambda>b. relabelled_nodes lab (load_nodes pr b)) bl')"
    using nodes' n_eq bl' by (simp add: comp_def)
  show "dicts = map (\<lambda>i. result_dict (relabelled_nodes lab (load_nodes pr (bl' ! i)))
                        (map (\<lambda>r. r + offset_before pr bl' i) (sub_result pr (bl' ! i)))) [0..<length bl']"
    unfolding dicts n_eq offsets_eq [OF offs] bl' add_offsets_def
    by (rule nth_equalityI) simp_all
  show "\<forall>b \<in> set bl'. length (load_nodes pr b) = length (sub_result pr b) \<and> sub_result pr b \<noteq> []"
  proof
    fix b assume "b \<in> set bl'"
    with bl' have b: "b \<in> set bl" and p: "read_chunk pr b \<noteq> None" by simp_all
    from b obtain k where k: "k < length bl" and bk: "bl ! k = b" by (auto simp add: in_set_conv_nth)
    from collect_Inr_D [OF res] have "map (read_subres pr) bl ! k = map Inr results ! k" by simp
    moreover have "length results = length bl" using results by simp
    ultimately have "read_subres pr b = Inr (results ! k)" using k bk by simp
    from read_subres_Inr(2) [OF this p]
    show "length (load_nodes pr b) = length (sub_result pr b) \<and> sub_result pr b \<noteq> []" .
  qed
qed

subsection \<open>The result dictionaries\<close>










subsection \<open>Offsets (claim C1)\<close>




subsection \<open>Label 0 (claim C6)\<close>



subsection \<open>Blocks without a stored sub-result (claim C7)\<close>

lemma write_block_res_other:
  assumes "b \<noteq> b'"
  shows "regions (fst (write_block_res ds_in ds_out b' block_res st)) d b = regions st d b"
    and "count_list (success_log (fst (write_block_res ds_in ds_out b' block_res st))) b
          = count_list (success_log st) b"
  using assms
  by (auto simp add: write_block_res_def write_region_def log_block_success_def split: sum.splits)

lemma write_all_other:
  "b \<notin> fst ` set ps \<Longrightarrow>
   regions (fst (write_all ds_in ds_out ps st)) d b = regions st d b
   \<and> count_list (success_log (fst (write_all ds_in ds_out ps st))) b = count_list (success_log st) b"
proof (induction ps arbitrary: st)
  case Nil
  then show ?case by simp
next
  case (Cons p ps)
  obtain b' block_res where p: "p = (b', block_res)" by (cases p)
  with Cons.prems have ne: "b \<noteq> b'" and rest: "b \<notin> fst ` set ps" by auto
  let ?st' = "fst (write_block_res ds_in ds_out b' block_res st)"
  have step: "fst (write_all ds_in ds_out (p # ps) st) = fst (write_all ds_in ds_out ps ?st')"
    by (simp add: p split: prod.splits)
  from Cons.IH [OF rest, of ?st'] write_block_res_other [OF ne]
  show ?case unfolding step by simp
qed

lemma read_subres_absent:
  "read_chunk pr b = None \<Longrightarrow> 0 \<in> set (load_nodes pr b) \<Longrightarrow> read_subres pr b = Inr None"
  by (simp add: read_subres_def)

lemma map_filter_append:
  "List.map_filter f (xs @ ys) = List.map_filter f xs @ List.map_filter f ys"
  by (simp add: List.map_filter_def)

lemma read_subresults_drop_absent:
  assumes "read_chunk pr b = None" and "0 \<in> set (load_nodes pr b)"
  shows "read_subresults pr (xs @ b # ys) lab = read_subresults pr (xs @ ys) lab"
proof (cases "collect (map (read_subres pr) xs)")
  case (Inl e)
  then show ?thesis by (simp add: read_subresults_def collect_append)
next
  case (Inr rx)
  note rx = this
  show ?thesis
  proof (cases "collect (map (read_subres pr) ys)")
    case (Inl e)
    with rx show ?thesis
      by (simp add: read_subresults_def collect_append read_subres_absent [OF assms])
  next
    case (Inr ry)
    have lx: "length rx = length xs" using collect_Inr_D [OF rx] by (metis length_map)
    have c1: "collect (map (read_subres pr) (xs @ b # ys)) = Inr (rx @ None # ry)"
      using rx Inr by (simp add: collect_append read_subres_absent [OF assms])
    have c2: "collect (map (read_subres pr) (xs @ ys)) = Inr (rx @ ry)"
      using rx Inr by (simp add: collect_append)
    have z: "filter (\<lambda>(block_id, res). res \<noteq> None) (zip (xs @ b # ys) (rx @ None # ry))
        = filter (\<lambda>(block_id, res). res \<noteq> None) (zip (xs @ ys) (rx @ ry))"
      using lx by simp
    have m: "List.map_filter (\<lambda>res. res) (rx @ None # ry) = List.map_filter (\<lambda>res. res) (rx @ ry)"
      by (simp add: List.map_filter_def)
    show ?thesis
      unfolding read_subresults_def c1 c2 sum.case z m ..
  qed
qed

text \<open>
  Claim C7. A block whose stored sub-result is absent (\<^verbatim>\<open>read_chunk\<close> gives
  \<^verbatim>\<open>None\<close>) adds nothing to the offsets: taking it out of the block list leaves the
  result of \<^verbatim>\<open>_read_subresults\<close> as it is (its nodes must hold 0, which the code
  asserts). It is not in the returned block list, and the write phase of
  \<^verbatim>\<open>sub_solutions\<close> neither writes its region in any dataset nor logs it as a
  successful block.
\<close>

theorem absent_block_no_offset_no_write:
  assumes "read_chunk pr b = None"
  shows "(0 \<in> set (load_nodes pr b) \<longrightarrow>
            read_subresults pr (xs @ b # ys) lab = read_subresults pr (xs @ ys) lab)
    \<and> (\<forall>bl' dicts. read_subresults pr block_list lab = Inr (bl', dicts) \<longrightarrow> b \<notin> set bl')
    \<and> regions (fst (sub_solutions pr scale node_labeling block_list ds_in ds_out st)) d b
          = regions st d b
    \<and> count_list (success_log (fst (sub_solutions pr scale node_labeling block_list ds_in ds_out st))) b
          = count_list (success_log st) b"
proof -
  have a: "0 \<in> set (load_nodes pr b) \<longrightarrow>
            read_subresults pr (xs @ b # ys) lab = read_subresults pr (xs @ ys) lab"
    using read_subresults_drop_absent [OF assms] by blast
  have n: "b \<notin> set bl'" if "read_subresults pr bl l = Inr (bl', dicts)" for bl l bl' dicts
    using read_subresults_Inr(1) [OF that] assms by simp
  let ?lab = "if scale > 1 then Some node_labeling else None"
  let ?res = "sub_solutions pr scale node_labeling block_list ds_in ds_out st"
  have w: "regions (fst ?res) d b = regions st d b
      \<and> count_list (success_log (fst ?res)) b = count_list (success_log st) b"
  proof (cases "read_subresults pr block_list ?lab")
    case (Inl e)
    then show ?thesis by (simp add: sub_solutions_def)
  next
    case (Inr p)
    obtain bl' dicts where p: "p = (bl', dicts)" by (cases p)
    from Inr p have r: "read_subresults pr block_list ?lab = Inr (bl', dicts)" by simp
    from n [OF r] have "b \<notin> fst ` set (zip bl' dicts)" by (auto dest: set_zip_leftD)
    from write_all_other [OF this, of ds_in ds_out st d] r show ?thesis
      by (simp add: sub_solutions_def)
  qed
  from a n w show ?thesis by blast
qed

text \<open>
  The example with nothing stored for block 1: blocks 0 and 2 are written (block 2 with
  the offset 4 of block 0 alone), block 1 keeps its old content.
\<close>

theorem absent_block_no_offset_no_write_witness:
  "read_chunk ex_absent 1 = None
   \<and> 0 \<in> set (load_nodes ex_absent 1)
   \<and> read_subresults ex_absent ([0] @ 1 # [2]) None = read_subresults ex_absent ([0] @ [2]) None
   \<and> fst (projr (read_subresults ex_absent [0, 1, 2] None)) = [0, 2]
   \<and> regions (fst (sub_solutions ex_absent 1 [] [0, 1, 2] 0 1 ex_store)) 1 1 = [9, 9]
   \<and> regions (fst (sub_solutions ex_absent 1 [] [0, 1, 2] 0 1 ex_store)) 1 2 = [8, 9, 0]
   \<and> success_log (fst (sub_solutions ex_absent 1 [] [0, 1, 2] 0 1 ex_store)) = [0, 2]"
proof -
  have h: "read_chunk ex_absent 1 = None" by (simp add: ex_absent_def)
  have z: "0 \<in> set (load_nodes ex_absent 1)" by (simp add: ex_absent_def)
  note t = absent_block_no_offset_no_write [OF h, of "[0]" "[2]" None "[0, 1, 2]" 1 "[]" 0 1 ex_store 1]
  from t z have e: "read_subresults ex_absent ([0] @ 1 # [2]) None = read_subresults ex_absent ([0] @ [2]) None"
    by blast
  from t have "regions (fst (sub_solutions ex_absent 1 [] [0, 1, 2] 0 1 ex_store)) 1 1 = regions ex_store 1 1"
    by blast
  then have u: "regions (fst (sub_solutions ex_absent 1 [] [0, 1, 2] 0 1 ex_store)) 1 1 = [9, 9]"
    by (simp add: ex_store_def)
  have r: "read_subresults ex_absent [0, 1, 2] None
      = Inr ([0, 2], [Map.empty(0 \<mapsto> 0, 1 \<mapsto> 1, 2 \<mapsto> 2, 3 \<mapsto> 3), Map.empty(0 \<mapsto> 0, 4 \<mapsto> 8, 5 \<mapsto> 9)])"
    by (simp add: read_subresults_def read_subres_def ex_absent_def np_max_def
      block_offsets_def to_uint64_def np_roll1_def np_cumsum_def apply_node_labeling_def
      add_offsets_def result_dict_def dict_put_def List.map_filter_simps Let_def)
  have s: "sub_solutions ex_absent 1 [] [0, 1, 2] 0 1 ex_store
      = (\<lparr>regions = (regions ex_store)(1 := (regions ex_store 1)(0 := [1, 2, 0, 3], 2 := [8, 9, 0])),
          success_log = [0, 2]\<rparr>, None)"
  proof -
    have lab: "(if (1::int) > 1 then Some ([]::u64 list) else None) = None" by simp
    show ?thesis
      unfolding sub_solutions_def Let_def lab r
      by (simp add: write_block_res_def takeDict_def ex_store_def
          write_region_def log_block_success_def)
  qed
  have v: "regions (fst (sub_solutions ex_absent 1 [] [0, 1, 2] 0 1 ex_store)) 1 2 = [8, 9, 0]
      \<and> success_log (fst (sub_solutions ex_absent 1 [] [0, 1, 2] 0 1 ex_store)) = [0, 2]"
    unfolding s by simp
  have f: "fst (projr (read_subresults ex_absent [0, 1, 2] None)) = [0, 2]" unfolding r by simp
  from h z e f u v show ?thesis by (simp only: simp_thms)
qed

section \<open>Properties of reading a block with its halo\<close>

lemma clamp_starts:
  "(if \<exists>start \<in> set starts. start < (0::int) then map (\<lambda>start. max 0 start) starts else starts)
     = map (\<lambda>start. max 0 start) starts"
proof (cases "\<exists>start \<in> set starts. start < 0")
  case True
  then show ?thesis by simp
next
  case False
  then have "map (\<lambda>start. max 0 start) starts = starts" by (intro map_idI) auto
  with False show ?thesis by simp
qed

lemma clamp_stops:
  assumes "length stops \<le> length shape"
  shows "(if \<exists>(stop, n) \<in> set (zip stops shape). stop > (n::int)
          then map (\<lambda>(stop, n). min n stop) (zip stops shape) else stops)
     = map (\<lambda>(stop, n). min n stop) (zip stops shape)"
proof (cases "\<exists>(stop, n) \<in> set (zip stops shape). stop > n")
  case True
  then show ?thesis by simp
next
  case False
  then have "map (\<lambda>(stop, n). min n stop) (zip stops shape) = map fst (zip stops shape)"
    by (intro map_cong) auto
  also have "\<dots> = stops" using assms by (simp add: map_fst_zip_take)
  finally show ?thesis using False by simp
qed

lemma zeros_nth: "i < 3 \<Longrightarrow> [0, 0, 0::int] ! i = 0"
  by (simp add: nth_Cons')

lemma read_padded_eq:
  assumes "length stops \<le> length shape"
  shows "read_padded shape starts stops =
    (case getitem_shape shape (bb_of shape starts stops) of
       Inl e \<Rightarrow> Inl e
     | Inr data_shape \<Rightarrow>
         if padded_of shape starts stops
         then (case np_pad_shape data_shape (zip (pl_of starts) (pr_of shape stops)) of
                 Inl e \<Rightarrow> Inl e
               | Inr padded \<Rightarrow>
                   Inr \<lparr>read_bb = bb_of shape starts stops,
                        pad_width = Some (zip (pl_of starts) (pr_of shape stops)),
                        out_shape = padded\<rparr>)
         else Inr \<lparr>read_bb = bb_of shape starts stops, pad_width = None, out_shape = data_shape\<rparr>)"
proof -
  have n: "\<not> length shape < length stops" using assms by simp
  show ?thesis
    unfolding read_padded_def Let_def clamp_starts clamp_stops [OF assms] if_not_P [OF n]
      bb_of_def [symmetric]
    by (auto simp add: padded_of_def pl_of_def pr_of_def split: sum.splits)
qed

lemma getitem_shape_Inr:
  "getitem_shape shape bb = Inr ds \<Longrightarrow>
     length bb \<le> length shape
     \<and> ds = map (\<lambda>(n, se). slice_len n se) (zip shape bb) @ drop (length bb) shape"
  by (auto simp add: getitem_shape_def split: if_splits)

lemma length_bb_of:
  "length stops \<le> length shape \<Longrightarrow> length (bb_of shape starts stops) = min (length starts) (length stops)"
  by (simp add: bb_of_def)

lemma bb_of_nth:
  assumes "i < length starts" and "i < length stops" and "length stops \<le> length shape"
  shows "bb_of shape starts stops ! i = (max 0 (starts ! i), min (shape ! i) (stops ! i))"
  using assms by (simp add: bb_of_def)

lemma pl_of_nth:
  assumes "i < length starts" and "i < 3"
  shows "pl_of starts ! i = max 0 (- (starts ! i))" and "i < length (pl_of starts)"
proof -
  show "pl_of starts ! i = max 0 (- (starts ! i))"
  proof (cases "\<exists>start \<in> set starts. start < 0")
    case True
    with assms show ?thesis by (simp add: pl_of_def)
  next
    case False
    with assms(1) have "0 \<le> starts ! i" by (meson nth_mem not_le)
    with False assms(2) show ?thesis by (simp add: pl_of_def zeros_nth)
  qed
  show "i < length (pl_of starts)" using assms by (simp add: pl_of_def)
qed

lemma pr_of_nth:
  assumes "i < length stops" and "i < 3" and "length stops \<le> length shape"
  shows "pr_of shape stops ! i = max 0 (stops ! i - shape ! i)" and "i < length (pr_of shape stops)"
proof -
  have il: "i < length (zip stops shape)" using assms by simp
  show "pr_of shape stops ! i = max 0 (stops ! i - shape ! i)"
  proof (cases "\<exists>(stop, n) \<in> set (zip stops shape). stop > n")
    case True
    with assms il show ?thesis by (simp add: pr_of_def)
  next
    case False
    have "(stops ! i, shape ! i) \<in> set (zip stops shape)"
      using il assms by (metis nth_mem nth_zip length_zip min_less_iff_conj)
    with False have "stops ! i \<le> shape ! i" by auto
    with False assms(2) show ?thesis by (simp add: pr_of_def zeros_nth)
  qed
  show "i < length (pr_of shape stops)" using assms by (simp add: pr_of_def)
qed

lemma read_padded_Inr:
  assumes "read_padded shape starts stops = Inr r"
  shows "length stops \<le> length shape"
    and "read_bb r = bb_of shape starts stops"
    and "pad_width r = (if padded_of shape starts stops
                        then Some (zip (pl_of starts) (pr_of shape stops)) else None)"
proof -
  show le: "length stops \<le> length shape"
    using assms by (auto simp add: read_padded_def Let_def split: if_splits)
  from assms have e: "(case getitem_shape shape (bb_of shape starts stops) of
       Inl e \<Rightarrow> Inl e
     | Inr data_shape \<Rightarrow>
         if padded_of shape starts stops
         then (case np_pad_shape data_shape (zip (pl_of starts) (pr_of shape stops)) of
                 Inl e \<Rightarrow> Inl e
               | Inr padded \<Rightarrow>
                   Inr \<lparr>read_bb = bb_of shape starts stops,
                        pad_width = Some (zip (pl_of starts) (pr_of shape stops)),
                        out_shape = padded\<rparr>)
         else Inr \<lparr>read_bb = bb_of shape starts stops, pad_width = None, out_shape = data_shape\<rparr>) = Inr r"
    unfolding read_padded_eq [OF le] .
  then show "read_bb r = bb_of shape starts stops"
    by (auto split: sum.splits if_splits)
  from e show "pad_width r = (if padded_of shape starts stops
                        then Some (zip (pl_of starts) (pr_of shape stops)) else None)"
    by (auto split: sum.splits if_splits)
qed

lemma read_padded_index:
  assumes "read_padded shape starts stops = Inr r" and "length shape = 3"
    and "i < length (read_bb r)"
  shows "i < length starts \<and> i < length stops
    \<and> read_bb r ! i = (max 0 (starts ! i), min (shape ! i) (stops ! i))
    \<and> pad_before r i = max 0 (- (starts ! i))
    \<and> pad_after r i = max 0 (stops ! i - shape ! i)"
proof -
  note r = read_padded_Inr [OF assms(1)]
  from assms(3) r(1,2) have i1: "i < length starts" and i2: "i < length stops"
    by (simp_all add: length_bb_of)
  from i2 r(1) assms(2) have i3: "i < 3" by simp
  have bb: "read_bb r ! i = (max 0 (starts ! i), min (shape ! i) (stops ! i))"
    unfolding r(2) by (rule bb_of_nth [OF i1 i2 r(1)])
  note pl = pl_of_nth [OF i1 i3]
  note pr = pr_of_nth [OF i2 i3 r(1)]
  have pb: "pad_before r i = max 0 (- (starts ! i))"
  proof (cases "padded_of shape starts stops")
    case True
    with r(3) pl pr show ?thesis by (simp add: pad_before_def)
  next
    case False
    then have "\<not> (\<exists>start \<in> set starts. start < 0)" by (simp add: padded_of_def)
    with i1 have "0 \<le> starts ! i" by (meson nth_mem not_le)
    with False r(3) show ?thesis by (simp add: pad_before_def)
  qed
  have pa: "pad_after r i = max 0 (stops ! i - shape ! i)"
  proof (cases "padded_of shape starts stops")
    case True
    with r(3) pl pr show ?thesis by (simp add: pad_after_def)
  next
    case False
    then have n: "\<not> (\<exists>(stop, n) \<in> set (zip stops shape). stop > n)" by (simp add: padded_of_def)
    have "(stops ! i, shape ! i) \<in> set (zip stops shape)"
      using i2 r(1) by (metis (no_types, lifting) nth_mem nth_zip length_zip min_less_iff_conj order_less_le_trans)
    with n have "stops ! i \<le> shape ! i" by auto
    with False r(3) show ?thesis by (simp add: pad_after_def)
  qed
  from i1 i2 bb pb pa show ?thesis by simp
qed

lemma floordivs_Inr:
  assumes "floordivs xs sf = Inr ys"
  shows "ys = map (\<lambda>(x, s). x div s) (zip xs sf)" and "\<forall>(x, s) \<in> set (zip xs sf). s \<noteq> 0"
proof -
  from assms have m: "map (\<lambda>(x, s). floordiv x s) (zip xs sf) = map Inr ys"
    unfolding floordivs_def by (rule collect_Inr_D)
  then have len: "length ys = length (zip xs sf)" by (metis length_map)
  have each: "snd (zip xs sf ! k) \<noteq> 0 \<and> ys ! k = fst (zip xs sf ! k) div snd (zip xs sf ! k)"
    if k: "k < length (zip xs sf)" for k
  proof -
    from m have "map (\<lambda>(x, s). floordiv x s) (zip xs sf) ! k = map Inr ys ! k" by simp
    with k len have "floordiv (fst (zip xs sf ! k)) (snd (zip xs sf ! k)) = Inr (ys ! k)"
      by (simp add: case_prod_beta)
    then show ?thesis by (auto simp add: floordiv_def split: if_splits)
  qed
  show "ys = map (\<lambda>(x, s). x div s) (zip xs sf)"
  proof (rule nth_equalityI)
    show "length ys = length (map (\<lambda>(x, s). x div s) (zip xs sf))" using len by simp
  next
    fix k assume "k < length ys"
    with len have k: "k < length (zip xs sf)" by simp
    from each [OF k] k show "ys ! k = map (\<lambda>(x, s). x div s) (zip xs sf) ! k"
      by (simp add: case_prod_beta)
  qed
  show "\<forall>(x, s) \<in> set (zip xs sf). s \<noteq> 0"
  proof (clarify)
    fix x assume "(x, 0) \<in> set (zip xs sf)"
    then obtain k where k: "k < length (zip xs sf)" and "zip xs sf ! k = (x, 0)"
      by (auto simp add: in_set_conv_nth)
    with each [OF k] show False by simp
  qed
qed

lemma floordivs_ok:
  assumes "\<forall>s \<in> set sf. s \<noteq> 0"
  shows "floordivs xs sf = Inr (map (\<lambda>(x, s). x div s) (zip xs sf))"
proof -
  have "map (\<lambda>(x, s). floordiv x s) (zip xs sf) = map Inr (map (\<lambda>(x, s). x div s) (zip xs sf))"
    using assms by (auto simp add: floordiv_def dest: set_zip_rightD)
  then show ?thesis unfolding floordivs_def by (simp only: collect_map_Inr)
qed

lemma window_starts_nth:
  assumes "i < length a" and "i < length b" and "i < length c"
  shows "window_starts a b c ! i = a ! i - b ! i - c ! i"
  using assms by (simp add: window_starts_def)

lemma window_stops_nth:
  assumes "i < length a" and "i < length bs" and "i < length b" and "i < length c"
  shows "window_stops a bs b c ! i = a ! i + bs ! i + b ! i + c ! i"
  using assms by (simp add: window_stops_def)

lemma length_window_starts:
  "length (window_starts a b c) = min (length a) (min (length b) (length c))"
  by (simp add: window_starts_def)

lemma length_window_stops:
  "length (window_stops a bs b c) = min (length a) (min (length bs) (min (length b) (length c)))"
  by (simp add: window_stops_def)

lemma load_input_impl_Inr:
  assumes "load_input_impl shape offset block_shape halo sf sh = Inr r"
  shows "read_padded shape
           (window_starts (map (\<lambda>(x, s). x div s) (zip offset sf)) (map (\<lambda>(x, s). x div s) (zip halo sf)) sh)
           (window_stops (map (\<lambda>(x, s). x div s) (zip offset sf))
              (map (\<lambda>(x, s). x div s) (zip block_shape sf)) (map (\<lambda>(x, s). x div s) (zip halo sf)) sh)
         = Inr r"
    and "\<forall>(x, s) \<in> set (zip offset sf). s \<noteq> 0"
proof -
  from assms obtain a where a: "floordivs offset sf = Inr a"
    by (auto simp add: load_input_impl_def split: sum.splits)
  from assms a obtain bs where bs: "floordivs block_shape sf = Inr bs"
    by (auto simp add: load_input_impl_def split: sum.splits)
  from assms a bs obtain h where h: "floordivs halo sf = Inr h"
    by (auto simp add: load_input_impl_def split: sum.splits)
  from assms a bs h have "read_padded shape (window_starts a h sh) (window_stops a bs h sh) = Inr r"
    by (simp add: load_input_impl_def)
  then show "read_padded shape
           (window_starts (map (\<lambda>(x, s). x div s) (zip offset sf)) (map (\<lambda>(x, s). x div s) (zip halo sf)) sh)
           (window_stops (map (\<lambda>(x, s). x div s) (zip offset sf))
              (map (\<lambda>(x, s). x div s) (zip block_shape sf)) (map (\<lambda>(x, s). x div s) (zip halo sf)) sh)
         = Inr r"
    unfolding floordivs_Inr(1) [OF a] floordivs_Inr(1) [OF bs] floordivs_Inr(1) [OF h] .
  show "\<forall>(x, s) \<in> set (zip offset sf). s \<noteq> 0" by (rule floordivs_Inr(2) [OF a])
qed

lemma slice_len_inside: "0 \<le> a \<Longrightarrow> a \<le> b \<Longrightarrow> b \<le> n \<Longrightarrow> slice_len n (a, b) = b - a"
  by (simp add: slice_len_def norm_index_def)

lemma np_pad_shape_ok:
  assumes "length pw = length ds"
    and "\<forall>(pl, pr) \<in> set pw. 0 \<le> pl \<and> 0 \<le> pr"
    and "\<forall>n \<in> set ds. n \<noteq> 0"
  shows "np_pad_shape ds pw = Inr (map (\<lambda>(n, (pl, pr)). pl + n + pr) (zip ds pw))"
proof -
  have a: "\<not> (\<exists>(pl, pr) \<in> set pw. pl < 0 \<or> pr < 0)" using assms(2) by fastforce
  have b: "\<not> (\<exists>(n, (pl, pr)) \<in> set (zip ds pw). n = 0 \<and> (pl \<noteq> 0 \<or> pr \<noteq> 0))"
    using assms(3) by (auto dest: set_zip_leftD)
  show ?thesis
    unfolding np_pad_shape_def Let_def using assms(1) a b by simp
qed

lemma window_arith:
  fixes st en n :: int
  assumes "st < en" and "st < n" and "0 < en" and "0 < n"
  shows "max 0 st < min n en"
    and "max 0 (- st) + (min n en - max 0 st) + max 0 (en - n) = en - st"
  using assms by auto

lemma length_pl_of: "length starts = 3 \<Longrightarrow> length (pl_of starts) = 3"
  by (simp add: pl_of_def)

lemma length_pr_of: "length stops = 3 \<Longrightarrow> length shape = 3 \<Longrightarrow> length (pr_of shape stops) = 3"
  by (simp add: pr_of_def)

lemma read_padded_ok:
  assumes ls: "length shape = 3" and lst: "length starts = 3" and len: "length stops = 3"
    and w: "\<forall>k<3. starts ! k < stops ! k \<and> starts ! k < shape ! k \<and> 0 < stops ! k \<and> 0 < shape ! k"
  shows "\<exists>r. read_padded shape starts stops = Inr r
    \<and> read_bb r = bb_of shape starts stops
    \<and> out_shape r = map (\<lambda>(s, e). e - s) (zip starts stops)
    \<and> pad_width r = (if padded_of shape starts stops
                      then Some (zip (pl_of starts) (pr_of shape stops)) else None)"
proof -
  let ?bb = "bb_of shape starts stops"
  let ?ds = "map (\<lambda>(n, se). slice_len n se) (zip shape ?bb)"
  let ?pw = "zip (pl_of starts) (pr_of shape stops)"
  have le: "length stops \<le> length shape" using ls len by simp
  have lbb: "length ?bb = 3" using lst len ls by (simp add: length_bb_of)
  have g: "getitem_shape shape ?bb = Inr ?ds"
    using lbb ls by (simp add: getitem_shape_def)
  have lds: "length ?ds = 3" using lbb ls by simp
  have dsk: "?ds ! k = min (shape ! k) (stops ! k) - max 0 (starts ! k)
      \<and> 0 < min (shape ! k) (stops ! k) - max 0 (starts ! k)" if k: "k < 3" for k
  proof -
    from k lst len have bbk: "?bb ! k = (max 0 (starts ! k), min (shape ! k) (stops ! k))"
      by (intro bb_of_nth [OF _ _ le]) simp_all
    from w k have lt: "max 0 (starts ! k) < min (shape ! k) (stops ! k)"
      by (intro window_arith(1)) auto
    then have "slice_len (shape ! k) (max 0 (starts ! k), min (shape ! k) (stops ! k))
        = min (shape ! k) (stops ! k) - max 0 (starts ! k)"
      by (intro slice_len_inside) auto
    with k lbb ls bbk lt show ?thesis by simp
  qed
  have nz: "\<forall>n \<in> set ?ds. n \<noteq> 0"
  proof
    fix n assume "n \<in> set ?ds"
    then obtain k where "k < length ?ds" and "?ds ! k = n" by (auto simp add: in_set_conv_nth)
    with lds dsk [of k] show "n \<noteq> 0" by auto
  qed
  have lpw: "length ?pw = 3" using lst len ls by (simp add: length_pl_of length_pr_of)
  have pwk: "?pw ! k = (max 0 (- (starts ! k)), max 0 (stops ! k - shape ! k))" if k: "k < 3" for k
  proof -
    from k lst have a: "pl_of starts ! k = max 0 (- (starts ! k))" by (intro pl_of_nth(1)) simp_all
    from k len have b: "pr_of shape stops ! k = max 0 (stops ! k - shape ! k)"
      by (intro pr_of_nth(1) [OF _ _ le]) simp_all
    from k lst len ls a b show ?thesis by (simp add: length_pl_of length_pr_of)
  qed
  have nonneg: "\<forall>(pl, pr) \<in> set ?pw. 0 \<le> pl \<and> 0 \<le> pr"
  proof (clarify)
    fix pl pr assume "(pl, pr) \<in> set ?pw"
    then obtain k where "k < length ?pw" and "?pw ! k = (pl, pr)" by (auto simp add: in_set_conv_nth)
    with lpw pwk [of k] show "0 \<le> pl \<and> 0 \<le> pr" by auto
  qed
  let ?want = "map (\<lambda>(s, e). e - s) (zip starts stops)"
  show ?thesis
  proof (cases "padded_of shape starts stops")
    case True
    have pad: "np_pad_shape ?ds ?pw = Inr (map (\<lambda>(n, (pl, pr)). pl + n + pr) (zip ?ds ?pw))"
      by (rule np_pad_shape_ok) (use lpw lds nonneg nz in simp_all)
    have eq: "map (\<lambda>(n, (pl, pr)). pl + n + pr) (zip ?ds ?pw) = ?want"
    proof (rule nth_equalityI)
      show "length (map (\<lambda>(n, (pl, pr)). pl + n + pr) (zip ?ds ?pw)) = length ?want"
        using lds lpw lst len by simp
    next
      fix k assume "k < length (map (\<lambda>(n, (pl, pr)). pl + n + pr) (zip ?ds ?pw))"
      with lds lpw have k: "k < 3" by simp
      from w k have "max 0 (- (starts ! k)) + (min (shape ! k) (stops ! k) - max 0 (starts ! k))
          + max 0 (stops ! k - shape ! k) = stops ! k - starts ! k"
        by (intro window_arith(2)) auto
      with k lds lpw lst len dsk [OF k] pwk [OF k]
      show "map (\<lambda>(n, (pl, pr)). pl + n + pr) (zip ?ds ?pw) ! k = ?want ! k" by simp
    qed
    have "read_padded shape starts stops
        = Inr \<lparr>read_bb = ?bb, pad_width = Some ?pw, out_shape = ?want\<rparr>"
      unfolding read_padded_eq [OF le] g using True pad eq by simp
    with True show ?thesis by simp
  next
    case False
    have eq: "?ds = ?want"
    proof (rule nth_equalityI)
      show "length ?ds = length ?want" using lds lst len by simp
    next
      fix k assume "k < length ?ds"
      with lds have k: "k < 3" by simp
      from False have "\<not> (\<exists>start \<in> set starts. start < 0)"
        and n2: "\<not> (\<exists>(stop, n) \<in> set (zip stops shape). stop > n)"
        by (simp_all add: padded_of_def)
      with k lst have s0: "0 \<le> starts ! k" by (metis nth_mem not_le)
      have "(stops ! k, shape ! k) \<in> set (zip stops shape)"
        using k len ls by (metis length_zip min_less_iff_conj nth_mem nth_zip)
      with n2 have e0: "stops ! k \<le> shape ! k" by auto
      from dsk [OF k] s0 e0 k lst len show "?ds ! k = ?want ! k" by simp
    qed
    have "read_padded shape starts stops = Inr \<lparr>read_bb = ?bb, pad_width = None, out_shape = ?want\<rparr>"
      unfolding read_padded_eq [OF le] g using False eq by simp
    with False show ?thesis by simp
  qed
qed

lemma set_nonzero: "length sf = 3 \<Longrightarrow> \<forall>k<3. sf ! k \<noteq> (0::int) \<Longrightarrow> \<forall>s \<in> set sf. s \<noteq> 0"
  by (auto simp add: in_set_conv_nth)

lemma all_less_3: "(\<forall>k<3. P k) = (P 0 \<and> P 1 \<and> P (2::nat))"
proof
  assume a: "\<forall>k<3. P k"
  then show "P 0 \<and> P 1 \<and> P 2" by simp
next
  assume b: "P 0 \<and> P 1 \<and> P 2"
  show "\<forall>k<3. P k"
  proof (intro allI impI)
    fix k :: nat
    assume "k < 3"
    then have "k = 0 \<or> k = 1 \<or> k = 2" by arith
    with b show "P k" by auto
  qed
qed

subsection \<open>Example windows\<close>


lemma ex_window:
  "load_input_impl [20, 20, 20] [10, 0, 5] [10, 10, 10] [2, 2, 2] [1, 1, 1] [0, 0, 0] = Inr ex_window_loaded"
  by (simp add: load_input_impl_def floordivs_def floordiv_def window_starts_def window_stops_def
      read_padded_def getitem_shape_def slice_len_def norm_index_def np_pad_shape_def
      ex_window_loaded_def Let_def)

lemma ex_coarse:
  "load_input_impl [32, 32, 32] [16, 0, 16] [16, 16, 16] [4, 4, 4] [2, 2, 2] [1, 1, 1] = Inr ex_coarse_loaded"
  by (simp add: load_input_impl_def floordivs_def floordiv_def window_starts_def window_stops_def
      read_padded_def getitem_shape_def slice_len_def norm_index_def np_pad_shape_def
      ex_coarse_loaded_def Let_def)

lemma ex_border:
  "load_input_impl [15, 15, 15] [0, 0, 10] [10, 10, 10] [0, 0, 0] [1, 1, 1] [0, 0, 0] = Inr ex_border_loaded"
  by (simp add: load_input_impl_def floordivs_def floordiv_def window_starts_def window_stops_def
      read_padded_def getitem_shape_def slice_len_def norm_index_def np_pad_shape_def
      ex_border_loaded_def Let_def)

subsection \<open>Clamping and padding (claim C3)\<close>

text \<open>
  Claim C3, as the code has it. \<^verbatim>\<open>_load_input\<close> gets the block's offset and the
  configured block shape, so the window it is asked for ends at offset + block shape (at
  the scale: \<open>st\<close> and \<open>en\<close> below), also for a block that the volume cuts short.
  For a 3-dimensional dataset and a window that is not empty and meets the volume,
  \<^verbatim>\<open>_load_input\<close> returns; it reads the window cut to the volume; the padding on the
  two sides of each axis is what the cut took away; the returned array has the shape of
  the window; and a window inside the volume is read as it is, without padding.
\<close>

theorem load_input_window:
  fixes shape offset block_shape halo sf sh :: "int list"
  defines "st \<equiv> \<lambda>k. offset ! k div sf ! k - halo ! k div sf ! k - sh ! k"
    and "en \<equiv> \<lambda>k. offset ! k div sf ! k + block_shape ! k div sf ! k + halo ! k div sf ! k + sh ! k"
  assumes "length shape = 3" and "length offset = 3" and "length block_shape = 3"
    and "length halo = 3" and "length sf = 3" and "length sh = 3"
    and "\<forall>k<3. sf ! k \<noteq> 0"
    and "\<forall>k<3. st k < en k \<and> st k < shape ! k \<and> 0 < en k \<and> 0 < shape ! k"
  shows "\<exists>r. load_input_impl shape offset block_shape halo sf sh = Inr r
    \<and> length (out_shape r) = 3
    \<and> (\<forall>k<3. read_bb r ! k = (max 0 (st k), min (shape ! k) (en k))
             \<and> pad_before r k = max 0 (- st k)
             \<and> pad_after r k = max 0 (en k - shape ! k)
             \<and> out_shape r ! k = en k - st k)
    \<and> ((\<forall>k<3. 0 \<le> st k \<and> en k \<le> shape ! k) \<longrightarrow> pad_width r = None)"
proof -
  let ?a = "map (\<lambda>(x, s). x div s) (zip offset sf)"
  let ?bs = "map (\<lambda>(x, s). x div s) (zip block_shape sf)"
  let ?h = "map (\<lambda>(x, s). x div s) (zip halo sf)"
  let ?starts = "window_starts ?a ?h sh"
  let ?stops = "window_stops ?a ?bs ?h sh"
  have nz: "\<forall>s \<in> set sf. s \<noteq> 0" by (rule set_nonzero [OF assms(7,9)])
  have li: "load_input_impl shape offset block_shape halo sf sh = read_padded shape ?starts ?stops"
    by (simp add: load_input_impl_def floordivs_ok [OF nz])
  have lst: "length ?starts = 3" using assms(4,6,7,8) by (simp add: length_window_starts)
  have len: "length ?stops = 3" using assms(4,5,6,7,8) by (simp add: length_window_stops)
  have sk: "?starts ! k = st k" if "k < 3" for k
    using that assms(4,6,7,8) by (simp add: window_starts_nth st_def)
  have ek: "?stops ! k = en k" if "k < 3" for k
    using that assms(4,5,6,7,8) by (simp add: window_stops_nth en_def)
  have w: "\<forall>k<3. ?starts ! k < ?stops ! k \<and> ?starts ! k < shape ! k \<and> 0 < ?stops ! k \<and> 0 < shape ! k"
    using assms(10) sk ek by simp
  from read_padded_ok [OF assms(3) lst len w] obtain r where
    r: "read_padded shape ?starts ?stops = Inr r"
    and bb: "read_bb r = bb_of shape ?starts ?stops"
    and os: "out_shape r = map (\<lambda>(s, e). e - s) (zip ?starts ?stops)"
    and pw: "pad_width r = (if padded_of shape ?starts ?stops
                      then Some (zip (pl_of ?starts) (pr_of shape ?stops)) else None)"
    by blast
  have lbb: "length (read_bb r) = 3" using bb lst len assms(3) by (simp add: length_bb_of)
  have los: "length (out_shape r) = 3" unfolding os using lst len by simp
  have each: "read_bb r ! k = (max 0 (st k), min (shape ! k) (en k))
             \<and> pad_before r k = max 0 (- st k)
             \<and> pad_after r k = max 0 (en k - shape ! k)
             \<and> out_shape r ! k = en k - st k" if k: "k < 3" for k
  proof -
    from k lbb have "k < length (read_bb r)" by simp
    from read_padded_index [OF r assms(3) this] sk [OF k] ek [OF k]
    have "read_bb r ! k = (max 0 (st k), min (shape ! k) (en k))
             \<and> pad_before r k = max 0 (- st k)
             \<and> pad_after r k = max 0 (en k - shape ! k)" by simp
    moreover have "out_shape r ! k = en k - st k"
      unfolding os using k lst len sk [OF k] ek [OF k] by simp
    ultimately show ?thesis by simp
  qed
  have inside: "pad_width r = None" if i: "\<forall>k<3. 0 \<le> st k \<and> en k \<le> shape ! k"
  proof -
    have "\<not> (\<exists>start \<in> set ?starts. start < 0)"
    proof
      assume "\<exists>start \<in> set ?starts. start < 0"
      then obtain k where "k < length ?starts" and "?starts ! k < 0"
        by (auto simp add: in_set_conv_nth)
      with lst sk [of k] i show False by auto
    qed
    moreover have "\<not> (\<exists>(stop, n) \<in> set (zip ?stops shape). stop > n)"
    proof
      assume "\<exists>(stop, n) \<in> set (zip ?stops shape). stop > n"
      then obtain k where k: "k < length (zip ?stops shape)" and "fst (zip ?stops shape ! k) > snd (zip ?stops shape ! k)"
        by (auto simp add: in_set_conv_nth)
      with len assms(3) ek [of k] i show False by auto
    qed
    ultimately have "\<not> padded_of shape ?starts ?stops" by (simp add: padded_of_def)
    with pw show ?thesis by simp
  qed
  from li r los each inside show ?thesis by auto
qed

text \<open>
  A window with halo 2 around the block at 10, 0, 5 of a volume of shape 20, 20, 20: it
  leaves the volume on the right of the first axis and on the left of the second.
\<close>

theorem load_input_window_witness:
  "length ([20, 20, 20] :: int list) = 3
   \<and> ([1, 1, 1] :: int list) = [1, 1, 1]
   \<and> window_starts [10, 0, 5] [2, 2, 2] [0, 0, 0] = [8, - 2, 3]
   \<and> window_stops [10, 0, 5] [10, 10, 10] [2, 2, 2] [0, 0, 0] = [22, 12, 17]
   \<and> load_input_impl [20, 20, 20] [10, 0, 5] [10, 10, 10] [2, 2, 2] [1, 1, 1] [0, 0, 0]
        = Inr ex_window_loaded
   \<and> read_bb ex_window_loaded = [(8, 20), (0, 12), (3, 17)]
   \<and> map (pad_before ex_window_loaded) [0, 1, 2] = [0, 2, 0]
   \<and> map (pad_after ex_window_loaded) [0, 1, 2] = [2, 0, 0]
   \<and> out_shape ex_window_loaded = [14, 14, 14]
   \<and> map (\<lambda>k. out_shape ex_window_loaded ! k) [0, 1, 2]
        = map (\<lambda>k. ([10, 10, 10] :: int list) ! k + 2 * ([2, 2, 2] :: int list) ! k) [0, 1, 2]"
proof -
  have h1: "length ([20, 20, 20] :: int list) = 3" and h2: "length ([10, 0, 5] :: int list) = 3"
    and h3: "length ([10, 10, 10] :: int list) = 3" and h4: "length ([2, 2, 2] :: int list) = 3"
    and h5: "length ([1, 1, 1] :: int list) = 3" and h6: "length ([0, 0, 0] :: int list) = 3" by simp_all
  have h7: "\<forall>k<3. ([1, 1, 1] :: int list) ! k \<noteq> 0" by (simp add: all_less_3)
  have h8: "\<forall>k<3.
      ([10, 0, 5] :: int list) ! k div ([1, 1, 1] :: int list) ! k - ([2, 2, 2] :: int list) ! k div ([1, 1, 1] :: int list) ! k - ([0, 0, 0] :: int list) ! k
        < ([10, 0, 5] :: int list) ! k div ([1, 1, 1] :: int list) ! k + ([10, 10, 10] :: int list) ! k div ([1, 1, 1] :: int list) ! k + ([2, 2, 2] :: int list) ! k div ([1, 1, 1] :: int list) ! k + ([0, 0, 0] :: int list) ! k
      \<and> ([10, 0, 5] :: int list) ! k div ([1, 1, 1] :: int list) ! k - ([2, 2, 2] :: int list) ! k div ([1, 1, 1] :: int list) ! k - ([0, 0, 0] :: int list) ! k
        < ([20, 20, 20] :: int list) ! k
      \<and> 0 < ([10, 0, 5] :: int list) ! k div ([1, 1, 1] :: int list) ! k + ([10, 10, 10] :: int list) ! k div ([1, 1, 1] :: int list) ! k + ([2, 2, 2] :: int list) ! k div ([1, 1, 1] :: int list) ! k + ([0, 0, 0] :: int list) ! k
      \<and> 0 < ([20, 20, 20] :: int list) ! k"
    by (simp add: all_less_3)
  from load_input_window [OF h1 h2 h3 h4 h5 h6 h7 h8] obtain r where
    r: "load_input_impl [20, 20, 20] [10, 0, 5] [10, 10, 10] [2, 2, 2] [1, 1, 1] [0, 0, 0] = Inr r"
    and p: "\<forall>k<3. out_shape r ! k
        = ([10, 0, 5] :: int list) ! k div ([1, 1, 1] :: int list) ! k + ([10, 10, 10] :: int list) ! k div ([1, 1, 1] :: int list) ! k + ([2, 2, 2] :: int list) ! k div ([1, 1, 1] :: int list) ! k + ([0, 0, 0] :: int list) ! k
          - (([10, 0, 5] :: int list) ! k div ([1, 1, 1] :: int list) ! k - ([2, 2, 2] :: int list) ! k div ([1, 1, 1] :: int list) ! k - ([0, 0, 0] :: int list) ! k)"
    by blast
  from r ex_window have e: "r = ex_window_loaded" by simp
  from p have o: "map (\<lambda>k. out_shape ex_window_loaded ! k) [0, 1, 2]
        = map (\<lambda>k. ([10, 10, 10] :: int list) ! k + 2 * ([2, 2, 2] :: int list) ! k) [0, 1, 2]"
    unfolding e by (simp add: all_less_3)
  have w1: "window_starts [10, 0, 5] [2, 2, 2] [0, 0, 0] = [8, - 2, 3]"
    and w2: "window_stops [10, 0, 5] [10, 10, 10] [2, 2, 2] [0, 0, 0] = [22, 12, 17]"
    by (simp_all add: window_starts_def window_stops_def)
  have b1: "read_bb ex_window_loaded = [(8, 20), (0, 12), (3, 17)]"
    and b2: "map (pad_before ex_window_loaded) [0, 1, 2] = [0, 2, 0]"
    and b3: "map (pad_after ex_window_loaded) [0, 1, 2] = [2, 0, 0]"
    and b4: "out_shape ex_window_loaded = [14, 14, 14]"
    by (simp_all add: ex_window_loaded_def pad_before_def pad_after_def)
  from h1 w1 w2 ex_window b1 b2 b3 b4 o show ?thesis by (simp only: simp_thms)
qed

subsection \<open>The window at a coarser scale (claim C4)\<close>

text \<open>
  Claim C4. For a 3-dimensional dataset, whenever \<^verbatim>\<open>_load_input\<close> returns, the window
  it returns begins, in each dimension, at
  \<open>offset div sf - halo div sf - scale_halo\<close> and ends at
  \<open>offset div sf + block_shape div sf + halo div sf + scale_halo\<close>: offset, block
  shape and halo are divided by the scale factor first (floor division; a scale factor 0
  raises), and the halo of the scale is added afterwards. The window consists of the
  region that is read and the padding on its two sides; where the window begins inside
  the volume, the region that is read begins there.
\<close>

theorem coarse_window_begin:
  assumes "load_input_impl shape offset block_shape halo sf sh = Inr r"
    and "length shape = 3" and "i < length (read_bb r)"
  shows "sf ! i \<noteq> 0
    \<and> fst (read_bb r ! i) - pad_before r i = offset ! i div sf ! i - halo ! i div sf ! i - sh ! i
    \<and> snd (read_bb r ! i) + pad_after r i
         = offset ! i div sf ! i + block_shape ! i div sf ! i + halo ! i div sf ! i + sh ! i
    \<and> (0 \<le> offset ! i div sf ! i - halo ! i div sf ! i - sh ! i \<longrightarrow>
         fst (read_bb r ! i) = offset ! i div sf ! i - halo ! i div sf ! i - sh ! i)"
proof -
  let ?a = "map (\<lambda>(x, s). x div s) (zip offset sf)"
  let ?bs = "map (\<lambda>(x, s). x div s) (zip block_shape sf)"
  let ?h = "map (\<lambda>(x, s). x div s) (zip halo sf)"
  let ?starts = "window_starts ?a ?h sh"
  let ?stops = "window_stops ?a ?bs ?h sh"
  note l = load_input_impl_Inr [OF assms(1)]
  from read_padded_index [OF l(1) assms(2,3)]
  have i1: "i < length ?starts" and i2: "i < length ?stops"
    and bb: "read_bb r ! i = (max 0 (?starts ! i), min (shape ! i) (?stops ! i))"
    and pb: "pad_before r i = max 0 (- (?starts ! i))"
    and pa: "pad_after r i = max 0 (?stops ! i - shape ! i)" by simp_all
  from i2 have io: "i < length offset" and isf: "i < length sf" and ibs: "i < length block_shape"
    and ih: "i < length halo" and ish: "i < length sh"
    by (simp_all add: length_window_stops)
  have s: "?starts ! i = offset ! i div sf ! i - halo ! i div sf ! i - sh ! i"
    using io isf ih ish by (simp add: window_starts_nth)
  have e: "?stops ! i = offset ! i div sf ! i + block_shape ! i div sf ! i + halo ! i div sf ! i + sh ! i"
    using io isf ibs ih ish by (simp add: window_stops_nth)
  have "(offset ! i, sf ! i) \<in> set (zip offset sf)"
    using io isf by (metis length_zip min_less_iff_conj nth_mem nth_zip)
  with l(2) have nz: "sf ! i \<noteq> 0" by auto
  from bb pb s have c1: "fst (read_bb r ! i) - pad_before r i
      = offset ! i div sf ! i - halo ! i div sf ! i - sh ! i" by simp
  from bb pa e have c2: "snd (read_bb r ! i) + pad_after r i
      = offset ! i div sf ! i + block_shape ! i div sf ! i + halo ! i div sf ! i + sh ! i" by simp
  from bb s have c3: "0 \<le> offset ! i div sf ! i - halo ! i div sf ! i - sh ! i \<longrightarrow>
         fst (read_bb r ! i) = offset ! i div sf ! i - halo ! i div sf ! i - sh ! i" by simp
  from nz c1 c2 c3 show ?thesis by simp
qed

text \<open>
  Scale factor 2, halo 4 and halo 1 of the scale, for the offsets 16 and 0: the window
  begins at 8 - 2 - 1 = 5 and at 0 - 2 - 1 = -3 (read from 0, with 3 padded).
\<close>

theorem coarse_window_begin_witness:
  "load_input_impl [32, 32, 32] [16, 0, 16] [16, 16, 16] [4, 4, 4] [2, 2, 2] [1, 1, 1]
        = Inr ex_coarse_loaded
   \<and> length [32, 32, 32::int] = 3
   \<and> (0::nat) < length (read_bb ex_coarse_loaded)
   \<and> (1::nat) < length (read_bb ex_coarse_loaded)
   \<and> fst (read_bb ex_coarse_loaded ! 0) - pad_before ex_coarse_loaded 0 = 16 div 2 - 4 div 2 - 1
   \<and> fst (read_bb ex_coarse_loaded ! 0) = 5
   \<and> fst (read_bb ex_coarse_loaded ! 1) - pad_before ex_coarse_loaded 1 = 0 div 2 - 4 div 2 - 1
   \<and> fst (read_bb ex_coarse_loaded ! 1) = 0
   \<and> pad_before ex_coarse_loaded 1 = 3"
proof -
  note h1 = ex_coarse
  have h2: "length [32, 32, 32::int] = 3" by simp
  have h3: "(0::nat) < length (read_bb ex_coarse_loaded)" by (simp add: ex_coarse_loaded_def)
  have h4: "(1::nat) < length (read_bb ex_coarse_loaded)" by (simp add: ex_coarse_loaded_def)
  from coarse_window_begin [OF h1 h2 h3]
  have a: "fst (read_bb ex_coarse_loaded ! 0) - pad_before ex_coarse_loaded 0 = 16 div 2 - 4 div 2 - 1"
    by simp
  from coarse_window_begin [OF h1 h2 h3]
  have a': "fst (read_bb ex_coarse_loaded ! 0) = 5" by simp
  from coarse_window_begin [OF h1 h2 h4]
  have b: "fst (read_bb ex_coarse_loaded ! 1) - pad_before ex_coarse_loaded 1 = 0 div 2 - 4 div 2 - 1"
    by simp
  have c: "fst (read_bb ex_coarse_loaded ! 1) = 0 \<and> pad_before ex_coarse_loaded 1 = 3"
    by (simp add: ex_coarse_loaded_def pad_before_def)
  from h1 h2 h3 h4 a a' b c show ?thesis by (simp only: simp_thms)
qed

section \<open>Properties of the per-block pipeline\<close>

subsection \<open>The events of the stages\<close>











subsection \<open>The chain of stages\<close>











subsection \<open>The example runs\<close>






subsection \<open>The success marker (claim C5)\<close>



subsection \<open>Blocks outside the mask (claim C2)\<close>

text \<open>
  Claim C2, as the code has it. For a block whose mask region is entirely false, the chain
  reads the mask and nothing else: no input is loaded, \<^verbatim>\<open>preprocess\<close> and
  \<^verbatim>\<open>predict\<close> are not called, no region is written. The block then gets the ordinary
  success marker (the code has no marker for a skipped block), which is why the stage
  completion, as the spec describes it, does not count it among the blocks to retry.
\<close>

theorem masked_block_short_circuit:
  assumes "cfg_mask cfg = Some m"
    and "\<forall>v \<in> set (m (getBlock (cfg_blocking cfg) b)). \<not> v"
    and "length (m (getBlock (cfg_blocking cfg) b)) < 2 ^ 64"
  shows "pipe_block cfg b = ([LogStart b, ReadMask b, LogBlockSuccess b], Inr 1)
    \<and> b \<notin> set (failed_blocks (fst (pipe_block cfg b)) block_list)"
proof -
  have z: "np_sum_bool (m (getBlock (cfg_blocking cfg) b)) = 0"
    using np_sum_bool_zero_iff [OF assms(3)] assms(2) by simp
  have l: "load_input cfg b = ([LogStart b, ReadMask b], Inr (b, None))"
    using assms(1) z by (simp add: load_input_def Let_def)
  have p: "pipe_block cfg b = ([LogStart b, ReadMask b, LogBlockSuccess b], Inr 1)"
    by (simp add: pipe_block_def until_write_def then_stage_def l preprocess_impl_def
        predict_impl_def write_output_def log2_def)
  show ?thesis unfolding p by (simp add: failed_blocks_def)
qed

theorem masked_block_short_circuit_witness:
  "cfg_mask ex_masked_cfg = Some (\<lambda>blk. [False, False])
   \<and> filter (\<lambda>v. v) [False, False] = []
   \<and> length [False, False] < (2::nat) ^ 64
   \<and> pipe_block ex_masked_cfg 0 = ([LogStart 0, ReadMask 0, LogBlockSuccess 0], Inr 1)
   \<and> failed_blocks (fst (pipe_block ex_masked_cfg 0)) [0] = []"
proof -
  have h1: "cfg_mask ex_masked_cfg = Some (\<lambda>blk. [False, False])"
    by (simp add: ex_masked_cfg_def)
  have h2: "\<forall>v \<in> set ((\<lambda>blk. [False, False]) (getBlock (cfg_blocking ex_masked_cfg) 0)). \<not> v" by simp
  have h3: "length ((\<lambda>blk. [False, False]) (getBlock (cfg_blocking ex_masked_cfg) 0)) < 2 ^ 64" by simp
  note t = masked_block_short_circuit [OF h1 h2 h3, where block_list = "[0]"]
  from t have p: "pipe_block ex_masked_cfg 0 = ([LogStart 0, ReadMask 0, LogBlockSuccess 0], Inr 1)" by blast
  from t have "0 \<notin> set (failed_blocks (fst (pipe_block ex_masked_cfg 0)) [0])" by blast
  then have f: "failed_blocks (fst (pipe_block ex_masked_cfg 0)) [0] = []"
    by (simp add: failed_blocks_def split: if_splits)
  from h1 p f show ?thesis by simp
qed

text \<open>
  Claim C2 as stated (the block is recorded as skipped rather than as a success) fails:
  the run of the masked block ends with the success marker of the block.
\<close>

theorem masked_block_marked_success_counterexample:
  "pipe_block ex_masked_cfg 0 = ([LogStart 0, ReadMask 0, LogBlockSuccess 0], Inr 1)
   \<and> LogBlockSuccess 0 \<in> set (fst (pipe_block ex_masked_cfg 0))"
proof -
  have l: "load_input ex_masked_cfg 0 = ([LogStart 0, ReadMask 0], Inr (0, None))"
    by (simp add: load_input_def ex_masked_cfg_def ex_cfg_def Let_def np_sum_bool_def)
  have p: "pipe_block ex_masked_cfg 0 = ([LogStart 0, ReadMask 0, LogBlockSuccess 0], Inr 1)"
    by (simp add: pipe_block_def until_write_def then_stage_def l preprocess_impl_def
        predict_impl_def write_output_def log2_def)
  show ?thesis unfolding p by simp
qed

subsection \<open>A single prediction and several outputs (claim C8)\<close>

lemma ex_set_up: "set_up [HInt 1, HInt 0, HInt 0] = Inr ex_predicter"
  by (simp add: set_up_def ex_predicter_def is_list_def)




lemma ex_write_channel_0:
  "write_dataset ex_two_outputs_cfg 0 ex_channels 0 (ex_dataset, (0, 1))
     = ([WriteRegion 0 0 ex_array], Inr ())"
  by (simp add: write_dataset_def channel_checks_def select_channels_def accumulate_and_cast_def
      put_region_def ex_two_outputs_cfg_def ex_dataset_def ex_channels_def ex_array_def ex_channel_1_def apply_slice_def
      py_slice_def norm_index_def Let_def)





subsection \<open>A block cut by the volume (claim C3 as stated)\<close>

text \<open>
  Claim C3 as stated (if the region from begin - h to end + h of a block lies inside the
  volume, nothing is padded and the returned array has the shape of that region) fails for
  a block that the volume cuts short: \<^verbatim>\<open>load_input\<close> passes the configured block
  shape, so with halo 0 the block from 0, 0, 10 to 10, 10, 15 of a volume of shape
  15, 15, 15 is read as it is and then padded by 5 on the last axis, to the shape
  10, 10, 10.
\<close>

theorem border_block_padded_counterexample:
  "block_to_bb (getBlock (cfg_blocking ex_border_cfg) 1) = [(0, 10), (0, 10), (10, 15)]
   \<and> cfg_ds_in ex_border_cfg = [[15, 15, 15]]
   \<and> cfg_halo ex_border_cfg = [0, 0, 0]
   \<and> load_input ex_border_cfg 1 = ([LogStart 1, LoadInputs 1], Inr (1, Some [ex_border_loaded]))
   \<and> read_bb ex_border_loaded = [(0, 10), (0, 10), (10, 15)]
   \<and> pad_width ex_border_loaded = Some [(0, 0), (0, 0), (0, 5)]
   \<and> out_shape ex_border_loaded = [10, 10, 10]
   \<and> out_shape ex_border_loaded \<noteq> [10, 10, 5]"
proof -
  have c: "cfg_blocking ex_border_cfg = \<lparr>blockShape = [10, 10, 10], getBlock = (\<lambda>b. ex_border_block)\<rparr>"
    and d: "cfg_ds_in ex_border_cfg = [[15, 15, 15]]" and h: "cfg_halo ex_border_cfg = [0, 0, 0]"
    and m: "cfg_mask ex_border_cfg = None"
    and sf: "cfg_scale_factors ex_border_cfg = [[1, 1, 1]]" and sh: "cfg_scale_halos ex_border_cfg = [[0, 0, 0]]"
    by (simp_all add: ex_border_cfg_def ex_cfg_def)
  have bb: "block_to_bb (getBlock (cfg_blocking ex_border_cfg) 1) = [(0, 10), (0, 10), (10, 15)]"
    by (simp add: c block_to_bb_def ex_border_block_def)
  have l: "load_input ex_border_cfg 1 = ([LogStart 1, LoadInputs 1], Inr (1, Some [ex_border_loaded]))"
    by (simp add: load_input_def c d h m sf sh ex_border_block_def load_inputs_impl_def ex_border)
  have r1: "read_bb ex_border_loaded = [(0, 10), (0, 10), (10, 15)]"
    and r2: "pad_width ex_border_loaded = Some [(0, 0), (0, 0), (0, 5)]"
    and r3: "out_shape ex_border_loaded = [10, 10, 10]"
    and r4: "out_shape ex_border_loaded \<noteq> [10, 10, 5]"
    by (simp_all add: ex_border_loaded_def)
  from bb d h l r1 r2 r3 r4 show ?thesis by (simp only: simp_thms)
qed

end
